theory Spec2Isabelle
  imports Complex_Main
begin

section \<open>JavaScript strings and the built-ins the components call\<close>

text \<open>
  A JavaScript string is modelled as a \<open>string\<close>: a list of code units, here the code
  units below 256. The built-ins used by the source
  (\<^verbatim>\<open>trim\<close>, \<^verbatim>\<open>toLowerCase\<close>, \<^verbatim>\<open>includes\<close>, \<^verbatim>\<open>startsWith\<close>, \<^verbatim>\<open>split\<close>, \<^verbatim>\<open>join\<close>)
  are written out as list functions.
\<close>

definition is_digit :: "char \<Rightarrow> bool" where
  \<comment> \<open>the class \<^verbatim>\<open>\d\<close> of a regular expression without the unicode flag: 0 to 9\<close>
  "is_digit c = (c \<in> set ''0123456789'')"

definition js_whitespace :: "char \<Rightarrow> bool" where
  \<comment> \<open>ECMAScript WhiteSpace and LineTerminator code units below 256:
      TAB, LF, VT, FF, CR, SP, NBSP\<close>
  "js_whitespace c = ((of_char c :: nat) \<in> set [9, 10, 11, 12, 13, 32, 160])"

definition trim :: "string \<Rightarrow> string" where
  "trim s = rev (dropWhile js_whitespace (rev (dropWhile js_whitespace s)))"

definition lower_char :: "char \<Rightarrow> char" where
  \<comment> \<open>A to Z, and the Latin-1 capitals 192 to 222 except the multiplication sign 215\<close>
  "lower_char c =
     (let n = (of_char c :: nat) in
      if (65 \<le> n \<and> n \<le> 90) \<or> (192 \<le> n \<and> n \<le> 222 \<and> n \<noteq> 215)
      then char_of (n + 32) else c)"

definition toLowerCase :: "string \<Rightarrow> string" where
  "toLowerCase s = map lower_char s"

definition startsWith :: "string \<Rightarrow> string \<Rightarrow> bool" where
  "startsWith s p = (take (length p) s = p)"

fun includes_str :: "string \<Rightarrow> string \<Rightarrow> bool" where
  "includes_str [] sub = (sub = [])"
| "includes_str (c # cs) sub = (startsWith (c # cs) sub \<or> includes_str cs sub)"

fun split_on :: "char \<Rightarrow> string \<Rightarrow> string \<Rightarrow> string list" where
  \<comment> \<open>\<^verbatim>\<open>s.split(sep)\<close> for a one-character separator; the second argument is the
      piece read so far\<close>
  "split_on sep cur [] = [cur]"
| "split_on sep cur (c # cs) =
     (if c = sep then cur # split_on sep [] cs else split_on sep (cur @ [c]) cs)"

fun join :: "string \<Rightarrow> string list \<Rightarrow> string" where
  "join sep [] = []"
| "join sep [x] = x"
| "join sep (x # y # ys) = x @ sep @ join sep (y # ys)"

section \<open>The citation pattern\<close>

text \<open>
  Both \<^verbatim>\<open>MessageContent.renderContent\<close> (Chat.tsx) and \<^verbatim>\<open>extractCitations\<close> (utils.ts)
  use the literal \<^verbatim>\<open>/\[([^\]]+)#(\d+)\]/g\<close>. The matcher below follows the backtracking
  semantics of that pattern at one start position: a greedy quantifier first tries to take
  one more character and, when the rest of the pattern then fails, continues with the rest
  of the pattern from where it stands.
\<close>

fun rx_digits :: "string \<Rightarrow> string \<Rightarrow> (string \<times> string) option" where
  \<comment> \<open>\<^verbatim>\<open>(\d+)\]\<close> with the digits \<open>ds\<close> already taken: the captured digits and the
      text after the closing bracket\<close>
  "rx_digits ds [] = None"
| "rx_digits ds (c # cs) =
     (case (if is_digit c then rx_digits (ds @ [c]) cs else None) of
        Some r \<Rightarrow> Some r
      | None \<Rightarrow> if ds \<noteq> [] \<and> c = CHR '']'' then Some (ds, cs) else None)"

fun rx_name :: "string \<Rightarrow> string \<Rightarrow> (string \<times> string \<times> string) option" where
  \<comment> \<open>\<^verbatim>\<open>([^\]]+)#(\d+)\]\<close> with the name characters \<open>nm\<close> already taken\<close>
  "rx_name nm [] = None"
| "rx_name nm (c # cs) =
     (case (if c \<noteq> CHR '']'' then rx_name (nm @ [c]) cs else None) of
        Some r \<Rightarrow> Some r
      | None \<Rightarrow>
          if nm \<noteq> [] \<and> c = CHR ''#''
          then (case rx_digits [] cs of
                  Some (ds, rest) \<Rightarrow> Some (nm, ds, rest)
                | None \<Rightarrow> None)
          else None)"

definition citation_match :: "string \<Rightarrow> (string \<times> string \<times> string) option" where
  \<comment> \<open>one match attempt at the start of \<open>s\<close>: capture 1, capture 2, the text after the match\<close>
  "citation_match s =
     (case s of
        [] \<Rightarrow> None
      | c # cs \<Rightarrow> if c = CHR ''['' then rx_name [] cs else None)"

lemma rx_digits_length: "rx_digits ds s = Some (d, rest) \<Longrightarrow> length rest < length s"
  by (induction ds s rule: rx_digits.induct)
     (fastforce split: if_splits option.splits)+

lemma rx_name_length: "rx_name nm s = Some (n, d, rest) \<Longrightarrow> length rest < length s"
  by (induction nm s rule: rx_name.induct)
     (fastforce split: if_splits option.splits dest: rx_digits_length)+

lemma citation_match_length:
  "citation_match s = Some (nm, ds, rest) \<Longrightarrow> length rest < length s"
  by (auto simp: citation_match_def split: list.splits if_splits dest: rx_name_length)

section \<open>MessageContent.renderContent (Chat.tsx)\<close>

text \<open>
  \<^verbatim>\<open>text.split(citationRegex)\<close>: the loop of \<^verbatim>\<open>RegExp.prototype[Symbol.split]\<close>.
  It tries a match at each position \<open>q\<close> in turn; without a match \<open>q\<close> moves on by one;
  with a match it pushes the text since the end of the previous match, then the two
  captures, and goes on after the match. The first argument is the text since the end of
  the previous match, the second the text from \<open>q\<close> on. The pattern matches no empty
  string, so the special cases of the built-in for empty matches and for the empty input
  do not arise (the empty input gives one empty part).
\<close>

function split_loop :: "string \<Rightarrow> string \<Rightarrow> string list" where
  "split_loop cur [] = [cur]"
| "split_loop cur (c # cs) =
     (case citation_match (c # cs) of
        Some (nm, ds, rest) \<Rightarrow> cur # nm # ds # split_loop [] rest
      | None \<Rightarrow> split_loop (cur @ [c]) cs)"
  by pat_completeness auto
termination
  by (relation "measure (\<lambda>(cur, s). length s)") (auto dest: citation_match_length)

definition split_citation :: "string \<Rightarrow> string list" where
  "split_citation text = split_loop [] text"

text \<open>
  The elements \<^verbatim>\<open>parts.map((part, index) => ...)\<close> returns: a plain \<^verbatim>\<open>span\<close> with its
  key and text; the citation \<^verbatim>\<open>span\<close> with its key, its title, and the two children
  \<open>part\<close> and \<open>chunkIndex\<close> that it shows between \<^verbatim>\<open>[\<close>, \<^verbatim>\<open>#\<close> and \<^verbatim>\<open>]\<close>; or \<^verbatim>\<open>null\<close>.
  \<^verbatim>\<open>parts[index + 1]\<close> past the end of the array is \<^verbatim>\<open>undefined\<close>, here \<open>None\<close>.
\<close>

datatype element =
    Span nat string
  | CitationSpan nat string string "string option"
  | Null

definition template_chunk :: "string option \<Rightarrow> string" where
  \<comment> \<open>\<^verbatim>\<open>${chunkIndex}\<close> in the title's template literal\<close>
  "template_chunk chunkIndex = (case chunkIndex of None \<Rightarrow> ''undefined'' | Some d \<Rightarrow> d)"

definition render_part :: "string list \<Rightarrow> string \<Rightarrow> nat \<Rightarrow> element" where
  "render_part parts part index =
     (if index mod 3 = 1 then
        (let chunkIndex = (if index + 1 < length parts then Some (parts ! (index + 1)) else None)
         in CitationSpan index (''Source: '' @ part @ '', Chunk: '' @ template_chunk chunkIndex)
              part chunkIndex)
      else if index mod 3 = 2 then Null
      else Span index part)"

fun map_index :: "('a \<Rightarrow> nat \<Rightarrow> 'b) \<Rightarrow> nat \<Rightarrow> 'a list \<Rightarrow> 'b list" where
  \<comment> \<open>\<^verbatim>\<open>Array.prototype.map\<close> with the callback's index argument, counted from \<open>k\<close>\<close>
  "map_index f k [] = []"
| "map_index f k (x # xs) = f x k # map_index f (Suc k) xs"

definition renderContent :: "string \<Rightarrow> element list" where
  "renderContent text =
     (let parts = split_citation text in map_index (render_part parts) 0 parts)"

fun element_text :: "element \<Rightarrow> string" where
  \<comment> \<open>the text an element shows\<close>
  "element_text (Span k t) = t"
| "element_text (CitationSpan k title part chunkIndex) =
     ''['' @ part @ ''#'' @ (case chunkIndex of None \<Rightarrow> [] | Some d \<Rightarrow> d) @ '']''"
| "element_text Null = []"

fun is_citation :: "element \<Rightarrow> bool" where
  "is_citation (CitationSpan k title part chunkIndex) = True"
| "is_citation e = False"

section \<open>extractCitations (utils.ts)\<close>

text \<open>
  \<^verbatim>\<open>citationRegex.exec(text)\<close> with the global flag searches from \<open>lastIndex\<close> onwards
  for the first position with a match, returns the matched substring \<^verbatim>\<open>match[0]\<close> and
  sets \<open>lastIndex\<close> to the end of the match; the text from \<open>lastIndex\<close> on is the argument.
\<close>

fun exec_citation :: "string \<Rightarrow> (string \<times> string) option" where
  "exec_citation [] = None"
| "exec_citation (c # cs) =
     (case citation_match (c # cs) of
        Some (nm, ds, rest) \<Rightarrow> Some (take (length (c # cs) - length rest) (c # cs), rest)
      | None \<Rightarrow> exec_citation cs)"

lemma exec_citation_length: "exec_citation s = Some (m, rest) \<Longrightarrow> length rest < length s"
  by (induction s) (fastforce split: option.splits dest: citation_match_length)+

function extract_loop :: "string list \<Rightarrow> string \<Rightarrow> string list" where
  "extract_loop citations s =
     (case exec_citation s of
        None \<Rightarrow> citations
      | Some (m, rest) \<Rightarrow> extract_loop (citations @ [m]) rest)"
  by pat_completeness auto
termination
  by (relation "measure (\<lambda>(citations, s). length s)") (auto dest: exec_citation_length)

definition extractCitations :: "string \<Rightarrow> string list" where
  "extractCitations text = extract_loop [] text"

section \<open>The API boundary (api.ts)\<close>

text \<open>
  A JavaScript number is a double: a finite one is a rational, and \<^verbatim>\<open>JSON.parse\<close> can
  also give an infinity (never NaN). JSON values as \<^verbatim>\<open>JSON.parse\<close> returns them; an
  object is the list of its properties (each name once).
\<close>

datatype jsnumber = Finite rat | PlusInfinity | MinusInfinity

datatype json =
    JNull
  | JBool bool
  | JNum jsnumber
  | JStr string
  | JArr "json list"
  | JObj "(string \<times> json) list"

datatype role = User | Assistant | System

record ChatMessage =
  role :: role
  content :: string

text \<open>
  \<^verbatim>\<open>SourceCitation\<close>, \<^verbatim>\<open>ChatResponse\<close> and the other response types of api.ts. Field names
  that two types of the source share carry a prefix here (\<open>src_\<close>, \<open>response_\<close>,
  \<open>delete_\<close>), and \<^verbatim>\<open>DocumentInfo.size\<close> is \<open>doc_size\<close>.
\<close>

record SourceCitation =
  src_doc_id :: string
  src_filename :: string
  chunk_index :: jsnumber
  snippet :: string
  score :: jsnumber
  src_metadata :: "(string \<times> json) list option"

record TokenUsage =
  prompt_tokens :: jsnumber
  completion_tokens :: jsnumber
  total_tokens :: jsnumber

record ChatResponse =
  answer :: string
  response_sources :: "SourceCitation list"
  usage :: "TokenUsage option"
  follow_up :: "string option"

record DocumentInfo =
  doc_id :: string
  filename :: string
  doc_size :: jsnumber
  mime_type :: string
  uploaded_at :: string
  chunks :: jsnumber
  tags :: "string list"
  metadata :: "(string \<times> json) list option"

record DocumentListResponse =
  items :: "DocumentInfo list"
  total :: jsnumber

record DeleteResponse =
  deleted :: bool
  delete_message :: string

text \<open>
  What a rejected API call throws: an Axios error, with
  \<^verbatim>\<open>response.data.detail\<close>, \<^verbatim>\<open>response.data.error\<close>, \<^verbatim>\<open>message\<close>, \<^verbatim>\<open>response.status\<close> and
  \<^verbatim>\<open>response.data.code\<close> (an absent one is \<open>None\<close>), or any other \<^verbatim>\<open>Error\<close> object with its
  message (the \<^verbatim>\<open>ZodError\<close> of a response that fails its schema, the \<^verbatim>\<open>TypeError\<close> of a
  failed \<^verbatim>\<open>fetch\<close>, the errors \<^verbatim>\<open>streamChat\<close> throws itself).
\<close>

datatype thrown =
    AxiosError "string option" "string option" string "nat option" "string option"
  | Error string

record ApiError =
  message :: string
  status :: "nat option"
  code :: "string option"

definition js_or :: "string option \<Rightarrow> string \<Rightarrow> string" where
  \<comment> \<open>\<^verbatim>\<open>a || b\<close> on an optional string: \<^verbatim>\<open>undefined\<close> and the empty string are falsy\<close>
  "js_or a b = (case a of None \<Rightarrow> b | Some x \<Rightarrow> if x = [] then b else x)"

fun handleApiError :: "thrown \<Rightarrow> ApiError" where
  "handleApiError (AxiosError detail err msg st cd) =
     \<lparr>message = js_or detail (js_or err msg), status = st, code = cd\<rparr>"
| "handleApiError (Error msg) =
     \<lparr>message = js_or (Some msg) ''An unknown error occurred'', status = None, code = None\<rparr>"

text \<open>A non-negative integer in a template literal: its decimal digits.\<close>

function string_of_nat :: "nat \<Rightarrow> string" where
  "string_of_nat n =
     (if n < 10 then [''0123456789'' ! n]
      else string_of_nat (n div 10) @ [''0123456789'' ! (n mod 10)])"
  by pat_completeness auto
termination
  by (relation "measure (\<lambda>n. n)") auto

declare string_of_nat.simps [simp del]

section \<open>The chat transcript (Chat.tsx)\<close>

text \<open>
  The component's state: the \<^verbatim>\<open>useState\<close> cells of \<^verbatim>\<open>Chat\<close>. The \<open>sources\<close> object is a
  map from the message id to the citations stored for it.
\<close>

record chat_state =
  messages :: "ChatMessage list"
  input :: string
  isLoading :: bool
  ragOnly :: bool
  sources :: "string \<rightharpoonup> SourceCitation list"

definition chat_init :: chat_state where
  "chat_init = \<lparr>messages = [], input = [], isLoading = False, ragOnly = True, sources = Map.empty\<rparr>"

definition messageId :: "nat \<Rightarrow> string" where
  \<comment> \<open>the template literal \<^verbatim>\<open>assistant-${n}\<close>, written by \<^verbatim>\<open>handleSubmit\<close> and read by the
      message list for the message at index \<open>n\<close>\<close>
  "messageId n = ''assistant-'' @ string_of_nat n"

text \<open>
  \<^verbatim>\<open>handleSubmit\<close> up to its \<^verbatim>\<open>await\<close>: the guard, the user message, the three state
  updates, and the call \<^verbatim>\<open>api.chat(newMessages, ragOnly)\<close> it issues, if any. Here the
  handler is called in the state \<open>s\<close> of the render it belongs to.
\<close>

definition handleSubmit_begin :: "chat_state \<Rightarrow> chat_state \<times> (ChatMessage list \<times> bool) option" where
  "handleSubmit_begin s =
     (if trim (input s) = [] \<or> isLoading s then (s, None)
      else
        (let userMessage = \<lparr>role = User, content = trim (input s)\<rparr>;
             newMessages = messages s @ [userMessage]
         in (s\<lparr>messages := newMessages, input := [], isLoading := True\<rparr>,
             Some (newMessages, ragOnly s))))"

text \<open>
  The same half of \<^verbatim>\<open>handleSubmit\<close> in general. The handler is a closure of one render:
  \<^verbatim>\<open>messages\<close>, \<^verbatim>\<open>input\<close>, \<^verbatim>\<open>isLoading\<close> and \<^verbatim>\<open>ragOnly\<close> in its body are the constants of
  that render, with state \<open>r\<close>, whatever the state \<open>cur\<close> is when the handler is called;
  the three setters put their values into \<open>cur\<close>.
\<close>

definition handleSubmit_call ::
    "chat_state \<Rightarrow> chat_state \<Rightarrow> chat_state \<times> (ChatMessage list \<times> bool) option" where
  "handleSubmit_call r cur =
     (if trim (input r) = [] \<or> isLoading r then (cur, None)
      else
        (let userMessage = \<lparr>role = User, content = trim (input r)\<rparr>;
             newMessages = messages r @ [userMessage]
         in (cur\<lparr>messages := newMessages, input := [], isLoading := True\<rparr>,
             Some (newMessages, ragOnly r))))"

text \<open>
  \<^verbatim>\<open>handleSubmit\<close> from the \<^verbatim>\<open>await\<close> on: the \<^verbatim>\<open>try\<close> branch for a resolved call, the
  \<^verbatim>\<open>catch\<close> branch for a rejected one, then \<^verbatim>\<open>finally\<close>. \<open>newMessages\<close> is the handler's
  local; \<^verbatim>\<open>setMessages(prev => ...)\<close> and \<^verbatim>\<open>setSources(prev => ...)\<close> read the state at the
  time of the update.
\<close>

definition handleSubmit_resume ::
    "ChatMessage list \<Rightarrow> thrown + ChatResponse \<Rightarrow> chat_state \<Rightarrow> chat_state" where
  "handleSubmit_resume newMessages result s =
     (let s' =
        (case result of
           Inr response \<Rightarrow>
             (let assistantMessage = \<lparr>role = Assistant, content = answer response\<rparr>;
                  finalMessages = newMessages @ [assistantMessage];
                  s1 = s\<lparr>messages := finalMessages\<rparr>
              in if length (response_sources response) > 0
                 then s1\<lparr>sources := (sources s1)
                        (messageId (length finalMessages - 1) \<mapsto> response_sources response)\<rparr>
                 else s1)
         | Inl error \<Rightarrow>
             (let apiError = handleApiError error;
                  errorMessage = \<lparr>role = Assistant,
                     content = ''Sorry, I encountered an error: '' @ message apiError
                               @ ''. Please try again.''\<rparr>
              in s\<lparr>messages := messages s @ [errorMessage]\<rparr>))
      in s'\<lparr>isLoading := False\<rparr>)"

text \<open>
  One whole call of \<^verbatim>\<open>handleSubmit\<close> with no other event between its two halves. \<open>chat\<close>
  is the outcome of \<^verbatim>\<open>api.chat\<close> for a request. What the caller gets is \<open>Inr\<close> of the new
  state when the promise resolves and \<open>Inl\<close> of the thrown value when it rejects.
\<close>

definition handleSubmit ::
    "(ChatMessage list \<Rightarrow> bool \<Rightarrow> thrown + ChatResponse) \<Rightarrow> chat_state \<Rightarrow> thrown + chat_state" where
  "handleSubmit chat s =
     (case handleSubmit_begin s of
        (s1, None) \<Rightarrow> Inr s1
      | (s1, Some (newMessages, rag)) \<Rightarrow>
          Inr (handleSubmit_resume newMessages (chat newMessages rag) s1))"

definition clearChat :: "chat_state \<Rightarrow> chat_state" where
  "clearChat s = s\<lparr>messages := [], sources := Map.empty\<rparr>"

text \<open>
  The transcript as a state machine. Its state is the current state of the component, the
  state of the latest render (the render whose handlers the events call), and the chat
  calls in flight (issued and not yet settled), each with the \<open>newMessages\<close> its handler
  holds. \<open>Render\<close> is a re-render: from then on the handlers see the current state.
  \<open>Respond i\<close> settles the call at index \<open>i\<close> of those in flight. \<^verbatim>\<open>clearChat\<close> and
  \<^verbatim>\<open>setInput\<close> read nothing of the render; \<^verbatim>\<open>setRagOnly(!ragOnly)\<close> reads its \<^verbatim>\<open>ragOnly\<close>.
\<close>

datatype chat_event =
    Submit
  | Respond nat "thrown + ChatResponse"
  | ClearChat
  | SetInput string
  | ToggleRagOnly
  | Render

type_synonym chat_system = "chat_state \<times> chat_state \<times> (ChatMessage list \<times> bool) list"

fun chat_step :: "chat_event \<Rightarrow> chat_system \<Rightarrow> chat_system" where
  "chat_step Submit (cur, r, pending) =
     (case handleSubmit_call r cur of
        (c1, None) \<Rightarrow> (c1, r, pending)
      | (c1, Some request) \<Rightarrow> (c1, r, pending @ [request]))"
| "chat_step (Respond i result) (cur, r, pending) =
     (if i < length pending
      then (handleSubmit_resume (fst (pending ! i)) result cur, r,
            take i pending @ drop (Suc i) pending)
      else (cur, r, pending))"
| "chat_step ClearChat (cur, r, pending) = (clearChat cur, r, pending)"
| "chat_step (SetInput v) (cur, r, pending) = (cur\<lparr>input := v\<rparr>, r, pending)"
| "chat_step ToggleRagOnly (cur, r, pending) = (cur\<lparr>ragOnly := \<not> ragOnly r\<rparr>, r, pending)"
| "chat_step Render (cur, r, pending) = (cur, cur, pending)"

fun chat_run :: "chat_event list \<Rightarrow> chat_system \<Rightarrow> chat_system" where
  "chat_run [] st = st"
| "chat_run (e # es) st = chat_run es (chat_step e st)"

section \<open>The upload form (DocumentUpload)\<close>

text \<open>
  \<^verbatim>\<open>handleUpload\<close> up to its \<^verbatim>\<open>await\<close>: nothing without a file; otherwise the tag list
  computed from the tag input and the call \<^verbatim>\<open>api.uploadDocument(file, tags)\<close>. The type of
  a file is left open.
\<close>

record 'f UploadState =
  upload_file :: "'f option"
  uploading :: bool
  progress :: nat
  upload_error :: "string option"
  success :: "string option"
  upload_tags :: string

definition handleUpload_tags :: "string \<Rightarrow> string list" where
  \<comment> \<open>\<^verbatim>\<open>uploadState.tags.split(',').map(tag => tag.trim()).filter(tag => tag.length > 0)\<close>\<close>
  "handleUpload_tags s = filter (\<lambda>tag. length tag > 0) (map trim (split_on (CHR '','') [] s))"

definition handleUpload_begin :: "'f UploadState \<Rightarrow> 'f UploadState \<times> ('f \<times> string list) option" where
  "handleUpload_begin st =
     (case upload_file st of
        None \<Rightarrow> (st, None)
      | Some f \<Rightarrow>
          (st\<lparr>uploading := True, progress := 0, upload_error := None, success := None\<rparr>,
           Some (f, handleUpload_tags (upload_tags st))))"

definition uploadDocument_form :: "'f \<Rightarrow> string list \<Rightarrow> 'f \<times> string option" where
  \<comment> \<open>the form data of \<^verbatim>\<open>api.uploadDocument\<close>: the file, and the field \<^verbatim>\<open>tags\<close> when there
      is a tag\<close>
  "uploadDocument_form f tgs = (f, if length tgs > 0 then Some (join '','' tgs) else None)"

section \<open>The document list (DocumentList)\<close>

record doclist_state =
  documents :: "DocumentInfo list"
  filteredDocuments :: "DocumentInfo list"
  loading :: bool
  error :: "string option"
  searchQuery :: string
  selectedTag :: string
  deleteConfirm :: "string option"

definition doclist_init :: doclist_state where
  "doclist_init = \<lparr>documents = [], filteredDocuments = [], loading = True, error = None,
     searchQuery = [], selectedTag = [], deleteConfirm = None\<rparr>"

definition filter_docs :: "string \<Rightarrow> string \<Rightarrow> DocumentInfo list \<Rightarrow> DocumentInfo list" where
  \<comment> \<open>the list \<^verbatim>\<open>filterDocuments(query, tag)\<close> computes from \<^verbatim>\<open>documents\<close>; an empty query
      or tag is falsy and filters nothing\<close>
  "filter_docs query tag docs =
     (let filtered = docs;
          filtered =
            (if query \<noteq> [] then
               (let lowercaseQuery = toLowerCase query
                in filter (\<lambda>doc. includes_str (toLowerCase (filename doc)) lowercaseQuery
                           \<or> list_ex (\<lambda>t. includes_str (toLowerCase t) lowercaseQuery) (tags doc))
                     filtered)
             else filtered);
          filtered =
            (if tag \<noteq> [] then filter (\<lambda>doc. tag \<in> set (tags doc)) filtered
             else filtered)
      in filtered)"

definition filterDocuments ::
    "string \<Rightarrow> string \<Rightarrow> DocumentInfo list \<Rightarrow> doclist_state \<Rightarrow> doclist_state" where
  \<comment> \<open>\<^verbatim>\<open>filterDocuments(query, tag)\<close> of a render whose \<^verbatim>\<open>documents\<close> is \<open>docs\<close>\<close>
  "filterDocuments query tag docs s = s\<lparr>filteredDocuments := filter_docs query tag docs\<rparr>"

definition loadDocuments :: "thrown + DocumentListResponse \<Rightarrow> doclist_state \<Rightarrow> doclist_state" where
  \<comment> \<open>one call of \<^verbatim>\<open>loadDocuments\<close>, given how \<^verbatim>\<open>api.listDocuments\<close> settles\<close>
  "loadDocuments result s =
     (let s0 = s\<lparr>loading := True, error := None\<rparr>;
          s1 = (case result of
                  Inr response \<Rightarrow> s0\<lparr>documents := items response,
                                      filteredDocuments := items response\<rparr>
                | Inl err \<Rightarrow> s0\<lparr>error := Some (message (handleApiError err))\<rparr>)
      in s1\<lparr>loading := False\<rparr>)"

definition handleDelete :: "string \<Rightarrow> thrown + DeleteResponse \<Rightarrow> doclist_state \<Rightarrow> doclist_state" where
  \<comment> \<open>one call of \<^verbatim>\<open>handleDelete(docId)\<close>, given how \<^verbatim>\<open>api.deleteDocument\<close> settles; the
      response's fields are not read\<close>
  "handleDelete docId result s =
     (case result of
        Inr response \<Rightarrow>
          s\<lparr>documents := filter (\<lambda>doc. doc_id doc \<noteq> docId) (documents s),
            filteredDocuments := filter (\<lambda>doc. doc_id doc \<noteq> docId) (filteredDocuments s),
            deleteConfirm := None\<rparr>
      | Inl err \<Rightarrow> s\<lparr>error := Some (message (handleApiError err))\<rparr>)"

text \<open>
  The document list as a state machine. \<^verbatim>\<open>filterDocuments\<close> is only called from the timer
  of \<^verbatim>\<open>debouncedSearch\<close>. Every render makes a \<^verbatim>\<open>debounce\<close> of its own, so the effect's call
  \<^verbatim>\<open>debouncedSearch(searchQuery)\<close> sets a new timer and cancels none. When a timer fires it
  runs \<^verbatim>\<open>filterDocuments(query, selectedTag)\<close> of the render that set it, with that render's
  \<^verbatim>\<open>documents\<close>. The machine's state is the component's state and the pending timers, the
  oldest first (they all have the same delay), each with the query, the tag and the
  documents of its render. \<open>Effect\<close> is the effect of a render of the current state;
  \<open>Fire\<close> is the oldest timer firing. \<open>Load\<close> and \<open>Delete\<close> are the calls with how
  they settle.
\<close>

datatype doclist_event =
    Load "thrown + DocumentListResponse"
  | Delete string "thrown + DeleteResponse"
  | SetSearchQuery string
  | SetSelectedTag string
  | Effect
  | Fire

type_synonym doclist_system = "doclist_state \<times> (string \<times> string \<times> DocumentInfo list) list"

fun doclist_step :: "doclist_event \<Rightarrow> doclist_system \<Rightarrow> doclist_system" where
  "doclist_step (Load result) (s, timers) = (loadDocuments result s, timers)"
| "doclist_step (Delete docId result) (s, timers) = (handleDelete docId result s, timers)"
| "doclist_step (SetSearchQuery v) (s, timers) = (s\<lparr>searchQuery := v\<rparr>, timers)"
| "doclist_step (SetSelectedTag v) (s, timers) = (s\<lparr>selectedTag := v\<rparr>, timers)"
| "doclist_step Effect (s, timers) =
     (s, timers @ [(searchQuery s, selectedTag s, documents s)])"
| "doclist_step Fire (s, timers) =
     (case timers of
        [] \<Rightarrow> (s, timers)
      | (query, tag, docs) # rest \<Rightarrow> (filterDocuments query tag docs s, rest))"

fun doclist_run :: "doclist_event list \<Rightarrow> doclist_system \<Rightarrow> doclist_system" where
  "doclist_run [] st = st"
| "doclist_run (e # es) st = doclist_run es (doclist_step e st)"

section \<open>streamChat (api.ts)\<close>

text \<open>
  The generator's observable behaviour: the tokens it yields and the warnings it logs, in
  order, and how it ends. \<^verbatim>\<open>JSON.parse\<close> is a parameter \<open>parse\<close>: \<open>None\<close> where it throws
  a \<^verbatim>\<open>SyntaxError\<close>.
\<close>

datatype stream_event = Yield json | Warn string

datatype stream_end = Completed | Throws ApiError

datatype property = TypeError | Undefined | Prop json

fun get_token :: "json \<Rightarrow> property" where
  \<comment> \<open>\<^verbatim>\<open>parsed.token\<close>: a \<^verbatim>\<open>TypeError\<close> on \<^verbatim>\<open>null\<close>, \<^verbatim>\<open>undefined\<close> on a value that has no such
      property\<close>
  "get_token JNull = TypeError"
| "get_token (JObj kvs) = (case map_of kvs ''token'' of None \<Rightarrow> Undefined | Some v \<Rightarrow> Prop v)"
| "get_token v = Undefined"

fun truthy :: "json \<Rightarrow> bool" where
  "truthy JNull = False"
| "truthy (JBool b) = b"
| "truthy (JNum n) = (n \<noteq> Finite 0)"
| "truthy (JStr s) = (s \<noteq> [])"
| "truthy (JArr xs) = True"
| "truthy (JObj kvs) = True"

definition process_data :: "(string \<Rightarrow> json option) \<Rightarrow> string \<Rightarrow> stream_event list" where
  \<comment> \<open>the inner \<^verbatim>\<open>try\<close>/\<^verbatim>\<open>catch\<close> on one payload: the \<^verbatim>\<open>catch\<close> takes the error of
      \<^verbatim>\<open>JSON.parse\<close> and that of \<^verbatim>\<open>parsed.token\<close> alike\<close>
  "process_data parse data =
     (case parse data of
        None \<Rightarrow> [Warn data]
      | Some parsed \<Rightarrow>
          (case get_token parsed of
             TypeError \<Rightarrow> [Warn data]
           | Undefined \<Rightarrow> []
           | Prop v \<Rightarrow> if truthy v then [Yield v] else []))"

fun process_lines :: "(string \<Rightarrow> json option) \<Rightarrow> string list \<Rightarrow> stream_event list \<times> bool" where
  \<comment> \<open>\<^verbatim>\<open>for (const line of lines)\<close>: the events, and whether the loop returned on
      \<^verbatim>\<open>[DONE]\<close>\<close>
  "process_lines parse [] = ([], False)"
| "process_lines parse (line # lines) =
     (if startsWith line ''data: '' then
        (let data = drop 6 line
         in if data = ''[DONE]'' then ([], True)
            else (let (evs, returned) = process_lines parse lines
                  in (process_data parse data @ evs, returned)))
      else process_lines parse lines)"

fun read_loop ::
    "(string \<Rightarrow> json option) \<Rightarrow> string \<Rightarrow> (thrown + string) list
       \<Rightarrow> stream_event list \<times> stream_end" where
  \<comment> \<open>\<^verbatim>\<open>while (true)\<close> over \<^verbatim>\<open>reader.read()\<close>: the list holds what the reads give, a decoded
      chunk or the error of a failed read; at its end the reader is done\<close>
  "read_loop parse buffer [] = ([], Completed)"
| "read_loop parse buffer (Inl err # reads) = ([], Throws (handleApiError err))"
| "read_loop parse buffer (Inr chunk # reads) =
     (let lines = split_on (CHR ''\<newline>'') [] (buffer @ chunk);
          buffer' = last lines;
          lines = butlast lines;
          (evs, returned) = process_lines parse lines
      in if returned then (evs, Completed)
         else (let (evs', e) = read_loop parse buffer' reads in (evs @ evs', e)))"

record stream_response =
  ok :: bool
  response_status :: nat
  body :: "(thrown + string) list option"

definition streamChat ::
    "(string \<Rightarrow> json option) \<Rightarrow> thrown + stream_response \<Rightarrow> stream_event list \<times> stream_end" where
  \<comment> \<open>the argument is how \<^verbatim>\<open>fetch\<close> settles\<close>
  "streamChat parse fetched =
     (case fetched of
        Inl err \<Rightarrow> ([], Throws (handleApiError err))
      | Inr response \<Rightarrow>
          if \<not> ok response
          then ([], Throws (handleApiError
                  (Error (''HTTP error! status: '' @ string_of_nat (response_status response)))))
          else (case body response of
                  None \<Rightarrow> ([], Throws (handleApiError (Error ''No response body reader available'')))
                | Some reads \<Rightarrow> read_loop parse [] reads))"

section \<open>Citation markers, as the specification words them\<close>

text \<open>
  A well-formed marker is \<^verbatim>\<open>[\<close>, a non-empty name without \<^verbatim>\<open>]\<close>, \<^verbatim>\<open>#\<close>, one or more
  digits, \<^verbatim>\<open>]\<close>. A segmentation of a text reads it from left to right as plain text and
  markers in turn: each marker is the first one to begin after the previous marker ends,
  so no marker begins inside a stretch of plain text.
\<close>

datatype segment = Plain string | Cite string string

definition is_marker :: "string \<Rightarrow> string \<Rightarrow> bool" where
  "is_marker nm ds = (nm \<noteq> [] \<and> CHR '']'' \<notin> set nm \<and> ds \<noteq> [] \<and> list_all is_digit ds)"

definition marker_text :: "string \<Rightarrow> string \<Rightarrow> string" where
  "marker_text nm ds = ''['' @ nm @ ''#'' @ ds @ '']''"

definition starts_marker :: "string \<Rightarrow> bool" where
  "starts_marker s = (\<exists>nm ds rest. is_marker nm ds \<and> s = marker_text nm ds @ rest)"

definition marker_free :: "string \<Rightarrow> string \<Rightarrow> bool" where
  "marker_free t s = (\<forall>i<length t. \<not> starts_marker (drop i (t @ s)))"

inductive segmentation :: "string \<Rightarrow> segment list \<Rightarrow> bool" where
  seg_plain: "marker_free t [] \<Longrightarrow> segmentation t [Plain t]"
| seg_cite: "marker_free t (marker_text nm ds @ rest) \<Longrightarrow> is_marker nm ds \<Longrightarrow>
     segmentation rest segs \<Longrightarrow>
     segmentation (t @ marker_text nm ds @ rest) (Plain t # Cite nm ds # segs)"

text \<open>
  The elements a segmentation is rendered as, with their keys counted from \<open>k\<close>, and the
  segments an element list shows.
\<close>

fun render_segments :: "nat \<Rightarrow> segment list \<Rightarrow> element list" where
  "render_segments k [] = []"
| "render_segments k (Plain t # segs) = Span k t # render_segments (k + 1) segs"
| "render_segments k (Cite nm ds # segs) =
     CitationSpan k (''Source: '' @ nm @ '', Chunk: '' @ ds) nm (Some ds) # Null
       # render_segments (k + 2) segs"

fun segments_of :: "element list \<Rightarrow> segment list" where
  "segments_of [] = []"
| "segments_of (Span k t # es) = Plain t # segments_of es"
| "segments_of (CitationSpan k title nm chunkIndex # es) =
     Cite nm (case chunkIndex of None \<Rightarrow> [] | Some d \<Rightarrow> d) # segments_of es"
| "segments_of (Null # es) = segments_of es"

text \<open>The segments a list of parts of \<^verbatim>\<open>split\<close> stands for, and the markers of a segment list.\<close>

fun segs_of_parts :: "string list \<Rightarrow> segment list" where
  "segs_of_parts [t] = [Plain t]"
| "segs_of_parts (t # nm # ds # ps) = Plain t # Cite nm ds # segs_of_parts ps"
| "segs_of_parts ps = []"

fun cite_texts :: "segment list \<Rightarrow> string list" where
  "cite_texts [] = []"
| "cite_texts (Plain t # segs) = cite_texts segs"
| "cite_texts (Cite nm ds # segs) = marker_text nm ds # cite_texts segs"

fun is_cite :: "segment \<Rightarrow> bool" where
  "is_cite (Cite nm ds) = True"
| "is_cite (Plain t) = False"

text \<open>
  The single-flight property of a current state and the calls in flight: at most one
  chat call is in flight, and the loading flag is set exactly while one is. An event
  sequence has a render between its submissions when every \<open>Submit\<close> comes after a
  \<open>Render\<close> with no other \<open>Submit\<close> in between; the flag says whether that holds of a
  \<open>Submit\<close> coming next.
\<close>

definition single_flight :: "chat_state \<times> (ChatMessage list \<times> bool) list \<Rightarrow> bool" where
  "single_flight st = (length (snd st) \<le> 1 \<and> (isLoading (fst st) = (snd st \<noteq> [])))"

fun renders_between_submits :: "bool \<Rightarrow> chat_event list \<Rightarrow> bool" where
  "renders_between_submits rendered [] = True"
| "renders_between_submits rendered (Submit # es) =
     (rendered \<and> renders_between_submits False es)"
| "renders_between_submits rendered (Render # es) = renders_between_submits True es"
| "renders_between_submits rendered (e # es) = renders_between_submits rendered es"

text \<open>
  The document filter in the specification's words: a text contains a query
  case-insensitively when the lower-cased text has the lower-cased query as a substring.
\<close>

definition ci_contains :: "string \<Rightarrow> string \<Rightarrow> bool" where
  "ci_contains s q = (\<exists>pre post. toLowerCase s = pre @ toLowerCase q @ post)"

text \<open>The two documents of the specification's filter example (the first with a capital).\<close>

definition doc_report :: DocumentInfo where
  "doc_report = \<lparr>doc_id = ''d1'', filename = ''Report.pdf'', doc_size = Finite 1024,
     mime_type = ''application/pdf'', uploaded_at = ''2024-01-01T00:00:00Z'', chunks = Finite 4,
     tags = [''q3''], metadata = None\<rparr>"

definition doc_notes :: DocumentInfo where
  "doc_notes = \<lparr>doc_id = ''d2'', filename = ''notes.md'', doc_size = Finite 2048,
     mime_type = ''text/markdown'', uploaded_at = ''2024-01-02T00:00:00Z'', chunks = Finite 2,
     tags = [''draft'', ''Q3''], metadata = None\<rparr>"

text \<open>
  The stream in the claim's words. The events of one line: none unless it starts with
  \<^verbatim>\<open>data: \<close>, otherwise those of its payload. The complete lines of a chunk sequence: the
  lines of the concatenated chunks that a line feed ends (what follows the last line feed
  stays in the buffer and is never processed).
\<close>

definition line_events :: "(string \<Rightarrow> json option) \<Rightarrow> string \<Rightarrow> stream_event list" where
  "line_events parse line =
     (if startsWith line ''data: '' then process_data parse (drop 6 line) else [])"

definition complete_lines :: "string list \<Rightarrow> string list" where
  "complete_lines cks = butlast (split_on (CHR ''\<newline>'') [] (concat cks))"

text \<open>
  What \<^verbatim>\<open>JSON.parse\<close> returns on the three object payloads the examples use. Every other
  string is taken to \<open>None\<close>, a \<^verbatim>\<open>SyntaxError\<close>; the examples rely on that for the payload
  \<^verbatim>\<open>{oops\<close> only, which is not JSON.
\<close>

definition JSON_parse_sample :: "string \<Rightarrow> json option" where
  \<open>JSON_parse_sample s =
     (if s = ''{"token":"Hel"}'' then Some (JObj [(''token'', JStr ''Hel'')])
      else if s = ''{"token":"lo"}'' then Some (JObj [(''token'', JStr ''lo'')])
      else if s = ''{"token":""}'' then Some (JObj [(''token'', JStr [])])
      else None)\<close>

section \<open>The matcher finds exactly the well-formed markers\<close>

lemma rx_digits_sound:
  "rx_digits acc s = Some (ds, rest) \<Longrightarrow>
     \<exists>d. ds = acc @ d \<and> s = d @ '']'' @ rest \<and> list_all is_digit d \<and> ds \<noteq> []"
proof (induction acc s rule: rx_digits.induct)
  case (1 ds)
  then show ?case by simp
next
  case (2 acc c cs)
  show ?case
  proof (cases "is_digit c \<and> rx_digits (acc @ [c]) cs \<noteq> None")
    case True
    then have "rx_digits (acc @ [c]) cs = Some (ds, rest)" using "2.prems" by auto
    with "2.IH" True obtain d where "ds = (acc @ [c]) @ d" "cs = d @ '']'' @ rest" "list_all is_digit d" "ds \<noteq> []"
      by blast
    then show ?thesis using True by (intro exI[of _ "c # d"]) simp
  next
    case False
    then have "acc \<noteq> [] \<and> c = CHR '']'' \<and> ds = acc \<and> rest = cs" using "2.prems"
      by (auto split: if_splits option.splits)
    then show ?thesis by (intro exI[of _ "[]"]) simp
  qed
qed

lemma rx_name_sound:
  "rx_name acc s = Some (nm, ds, rest) \<Longrightarrow>
     \<exists>n. nm = acc @ n \<and> CHR '']'' \<notin> set n \<and> nm \<noteq> [] \<and> s = n @ ''#'' @ ds @ '']'' @ rest
        \<and> ds \<noteq> [] \<and> list_all is_digit ds"
proof (induction acc s rule: rx_name.induct)
  case (1 nm)
  then show ?case by simp
next
  case (2 acc c cs)
  show ?case
  proof (cases "c \<noteq> CHR '']'' \<and> rx_name (acc @ [c]) cs \<noteq> None")
    case True
    then have "rx_name (acc @ [c]) cs = Some (nm, ds, rest)" using "2.prems" by auto
    with "2.IH" True obtain n where "nm = (acc @ [c]) @ n" "CHR '']'' \<notin> set n" "nm \<noteq> []"
       "cs = n @ ''#'' @ ds @ '']'' @ rest" "ds \<noteq> []" "list_all is_digit ds"
      by blast
    then show ?thesis using True by (intro exI[of _ "c # n"]) auto
  next
    case False
    then have *: "acc \<noteq> [] \<and> c = CHR ''#'' \<and> nm = acc \<and> rx_digits [] cs = Some (ds, rest)" using "2.prems"
      by (auto split: if_splits option.splits)
    then obtain d where "ds = [] @ d" "cs = d @ '']'' @ rest" "list_all is_digit d" "ds \<noteq> []"
      using rx_digits_sound by blast
    then show ?thesis using * by (intro exI[of _ "[]"]) simp
  qed
qed

lemma citation_match_sound:
  "citation_match s = Some (nm, ds, rest) \<Longrightarrow> is_marker nm ds \<and> s = marker_text nm ds @ rest"
  by (auto simp: citation_match_def is_marker_def marker_text_def split: list.splits if_splits
      dest!: rx_name_sound)

lemma rx_digits_complete:
  "list_all is_digit d \<Longrightarrow> acc @ d \<noteq> [] \<Longrightarrow> rx_digits acc (d @ '']'' @ rest) = Some (acc @ d, rest)"
proof (induction d arbitrary: acc)
  case Nil
  then show ?case by (simp add: is_digit_def)
next
  case (Cons c d)
  then have "rx_digits (acc @ [c]) (d @ '']'' @ rest) = Some ((acc @ [c]) @ d, rest)"
    by simp
  then show ?case using Cons.prems by simp
qed

lemma rx_name_digits_None:
  "list_all is_digit d \<Longrightarrow> rx_name acc (d @ '']'' @ rest) = None"
  by (induction d arbitrary: acc) (auto simp: is_digit_def)

lemma rx_name_complete:
  "CHR '']'' \<notin> set n \<Longrightarrow> acc @ n \<noteq> [] \<Longrightarrow> ds \<noteq> [] \<Longrightarrow> list_all is_digit ds \<Longrightarrow>
     rx_name acc (n @ ''#'' @ ds @ '']'' @ rest) = Some (acc @ n, ds, rest)"
proof (induction n arbitrary: acc)
  case Nil
  have "rx_name (acc @ ''#'') (ds @ '']'' @ rest) = None"
    using Nil.prems by (rule_tac rx_name_digits_None) simp
  moreover have "rx_digits [] (ds @ '']'' @ rest) = Some ([] @ ds, rest)"
    using Nil.prems by (intro rx_digits_complete) simp_all
  ultimately show ?case using Nil.prems by simp
next
  case (Cons c n)
  then have "rx_name (acc @ [c]) (n @ ''#'' @ ds @ '']'' @ rest) = Some ((acc @ [c]) @ n, ds, rest)"
    by simp
  then show ?case using Cons.prems by auto
qed

lemma citation_match_complete:
  "is_marker nm ds \<Longrightarrow> citation_match (marker_text nm ds @ rest) = Some (nm, ds, rest)"
  using rx_name_complete[of nm "[]" ds rest]
  by (simp add: citation_match_def is_marker_def marker_text_def)

lemma citation_match_iff:
  "citation_match s = Some (nm, ds, rest) \<longleftrightarrow> is_marker nm ds \<and> s = marker_text nm ds @ rest"
  using citation_match_sound citation_match_complete by blast

lemma not_starts_marker: "\<not> starts_marker s \<Longrightarrow> citation_match s = None"
  unfolding starts_marker_def using citation_match_sound
  by (metis not_Some_eq prod_cases3)

lemma starts_marker_iff: "starts_marker s \<longleftrightarrow> citation_match s \<noteq> None"
  unfolding starts_marker_def using citation_match_iff
  by (metis not_Some_eq prod_cases3)


lemma marker_free_Nil: "marker_free [] s"
  by (simp add: marker_free_def)

lemma marker_free_snoc:
  assumes "marker_free cur (c # cs)" and "\<not> starts_marker (c # cs)"
  shows "marker_free (cur @ [c]) cs"
  unfolding marker_free_def
proof (intro allI impI)
  fix i assume "i < length (cur @ [c])"
  then consider "i < length cur" | "i = length cur" by fastforce
  then show "\<not> starts_marker (drop i ((cur @ [c]) @ cs))"
  proof cases
    case 1
    then show ?thesis using assms(1) by (simp add: marker_free_def)
  next
    case 2
    then show ?thesis using assms(2) by simp
  qed
qed

lemma marker_free_Cons:
  assumes "marker_free (c # t) s"
  shows "\<not> starts_marker (c # t @ s)" and "marker_free t s"
proof -
  show "\<not> starts_marker (c # t @ s)"
    using assms by (auto simp: marker_free_def dest: spec[of _ 0])
  show "marker_free t s"
    unfolding marker_free_def
  proof (intro allI impI)
    fix i assume "i < length t"
    then have "\<not> starts_marker (drop (Suc i) ((c # t) @ s))"
      using assms unfolding marker_free_def by (metis Suc_less_eq length_Cons)
    then show "\<not> starts_marker (drop i (t @ s))" by simp
  qed
qed

lemma split_loop_segmentation:
  "marker_free cur s \<Longrightarrow> segmentation (cur @ s) (segs_of_parts (split_loop cur s))"
proof (induction cur s rule: split_loop.induct)
  case (1 cur)
  then show ?case by (simp add: seg_plain)
next
  case (2 cur c cs)
  show ?case
  proof (cases "citation_match (c # cs)")
    case None
    then have "\<not> starts_marker (c # cs)" by (simp add: starts_marker_iff)
    then have "marker_free (cur @ [c]) cs" using "2.prems" by (rule marker_free_snoc[rotated])
    then have "segmentation ((cur @ [c]) @ cs) (segs_of_parts (split_loop (cur @ [c]) cs))"
      using "2.IH"(1) None by blast
    then show ?thesis using None by simp
  next
    case (Some r)
    obtain nm ds rest where r: "r = (nm, ds, rest)" by (cases r) 
    have m: "is_marker nm ds" "c # cs = marker_text nm ds @ rest"
      using Some r citation_match_sound by blast+
    have sl: "split_loop cur (c # cs) = cur # nm # ds # split_loop [] rest"
      using Some r by simp
    have "segmentation ([] @ rest) (segs_of_parts (split_loop [] rest))"
      using "2.IH"(2)[OF Some[unfolded r] refl refl] marker_free_Nil by blast
    then have "segmentation (cur @ marker_text nm ds @ rest)
                 (Plain cur # Cite nm ds # segs_of_parts (split_loop [] rest))"
      using "2.prems" m by (intro seg_cite) simp_all
    then have "segmentation (cur @ c # cs)
                 (Plain cur # Cite nm ds # segs_of_parts (split_loop [] rest))"
      by (simp only: m(2))
    then show ?thesis by (simp only: sl segs_of_parts.simps)
  qed
qed

lemma split_loop_marker_free:
  "marker_free t [] \<Longrightarrow> split_loop cur t = [cur @ t]"
proof (induction t arbitrary: cur)
  case Nil
  then show ?case by simp
next
  case (Cons c t)
  from marker_free_Cons[OF Cons.prems]
  have "citation_match (c # t) = None" "marker_free t []"
    by (simp_all add: not_starts_marker)
  then show ?case using Cons.IH[of "cur @ [c]"] by simp
qed

lemma split_loop_marker:
  "marker_free t (marker_text nm ds @ rest) \<Longrightarrow> is_marker nm ds \<Longrightarrow>
     split_loop cur (t @ marker_text nm ds @ rest) = (cur @ t) # nm # ds # split_loop [] rest"
proof (induction t arbitrary: cur)
  case Nil
  have "citation_match (marker_text nm ds @ rest) = Some (nm, ds, rest)"
    using Nil.prems(2) by (rule citation_match_complete)
  moreover obtain cs where "marker_text nm ds @ rest = CHR ''['' # cs"
    by (simp add: marker_text_def)
  ultimately show ?case by simp
next
  case (Cons c t)
  from marker_free_Cons[OF Cons.prems(1)]
  have "citation_match (c # t @ marker_text nm ds @ rest) = None"
       "marker_free t (marker_text nm ds @ rest)"
    by (simp_all add: not_starts_marker)
  then show ?case using Cons.IH[of "cur @ [c]"] Cons.prems(2) by simp
qed

lemma segmentation_split_loop:
  "segmentation text segs \<Longrightarrow> segs_of_parts (split_loop [] text) = segs"
proof (induction rule: segmentation.induct)
  case (seg_plain t)
  then show ?case by (simp add: split_loop_marker_free)
next
  case (seg_cite t nm ds rest segs)
  then show ?case by (simp add: split_loop_marker)
qed

lemma map_index_split_loop:
  "parts = P0 @ split_loop cur s \<Longrightarrow> length P0 mod 3 = 0 \<Longrightarrow>
     map_index (render_part parts) (length P0) (split_loop cur s)
       = render_segments (length P0) (segs_of_parts (split_loop cur s))"
proof (induction cur s arbitrary: P0 rule: split_loop.induct)
  case (1 cur)
  then show ?case by (simp add: render_part_def)
next
  case (2 cur c cs)
  show ?case
  proof (cases "citation_match (c # cs)")
    case None
    then show ?thesis using "2.IH"(1)[OF None, of P0] "2.prems" by simp
  next
    case (Some r)
    obtain nm ds rest where r: "r = (nm, ds, rest)" by (cases r)
    let ?k = "length P0"
    let ?P1 = "P0 @ [cur, nm, ds]"
    have parts: "parts = ?P1 @ split_loop [] rest"
      using "2.prems"(1) Some r by simp
    have len: "length ?P1 = Suc (Suc (Suc ?k))" by simp
    have "length ?P1 mod 3 = 0" using "2.prems"(2) by simp
    from "2.IH"(2)[OF Some[unfolded r] refl refl parts this]
    have IH: "map_index (render_part parts) (Suc (Suc (Suc ?k))) (split_loop [] rest)
        = render_segments (Suc (Suc (Suc ?k))) (segs_of_parts (split_loop [] rest))"
      by (simp only: len)
    have k1: "Suc ?k mod 3 = 1" and k2: "Suc (Suc ?k) mod 3 = 2"
      using "2.prems"(2) by presburger+
    have e0: "render_part parts cur ?k = Span ?k cur"
      using "2.prems"(2) by (simp add: render_part_def)
    have nth: "parts ! (Suc (Suc ?k)) = ds" "Suc (Suc ?k) < length parts"
      using parts by (simp_all add: nth_append)
    have e1: "render_part parts nm (Suc ?k)
        = CitationSpan (Suc ?k) (''Source: '' @ nm @ '', Chunk: '' @ ds) nm (Some ds)"
      using k1 nth by (simp add: render_part_def template_chunk_def)
    have e2: "render_part parts ds (Suc (Suc ?k)) = Null"
      using k2 by (simp add: render_part_def)
    show ?thesis using Some r e0 e1 e2 IH by simp
  qed
qed

lemma renderContent_render_segments:
  "renderContent text = render_segments 0 (segs_of_parts (split_citation text))"
  using map_index_split_loop[of "split_loop [] text" "[]" "[]" "text"]
  by (simp add: renderContent_def split_citation_def)

lemma segments_of_render_segments: "segments_of (render_segments k segs) = segs"
  by (induction k segs rule: render_segments.induct) simp_all

lemma cite_texts_render_segments:
  "map element_text (filter is_citation (render_segments k segs)) = cite_texts segs"
  by (induction k segs rule: render_segments.induct) (simp_all add: marker_text_def)

lemma segmentation_concat:
  "segmentation text segs \<Longrightarrow> concat (map element_text (render_segments k segs)) = text"
  by (induction arbitrary: k rule: segmentation.induct) (simp_all add: marker_text_def)

lemma segmentation_split_citation:
  "segmentation text (segs_of_parts (split_citation text))"
  using split_loop_segmentation[of "[]" "text"] by (simp add: split_citation_def marker_free_Nil)

declare extract_loop.simps [simp del]

lemma extract_loop_split_loop:
  "extract_loop acc s = acc @ cite_texts (segs_of_parts (split_loop cur s))"
proof (induction cur s arbitrary: acc rule: split_loop.induct)
  case (1 cur)
  then show ?case by (simp add: extract_loop.simps[of _ "[]"])
next
  case (2 cur c cs)
  show ?case
  proof (cases "citation_match (c # cs)")
    case None
    then have "extract_loop acc (c # cs) = extract_loop acc cs"
      by (simp add: extract_loop.simps[of acc "c # cs"] extract_loop.simps[of acc cs])
    then show ?thesis using "2.IH"(1)[OF None, of acc] None by simp
  next
    case (Some r)
    obtain nm ds rest where r: "r = (nm, ds, rest)" by (cases r)
    have m: "c # cs = marker_text nm ds @ rest"
      using Some r citation_match_sound by blast
    have "take (length (c # cs) - length rest) (c # cs) = marker_text nm ds"
      unfolding m by simp
    then have "exec_citation (c # cs) = Some (marker_text nm ds, rest)"
      using Some r by simp
    then have "extract_loop acc (c # cs) = extract_loop (acc @ [marker_text nm ds]) rest"
      by (simp add: extract_loop.simps[of acc "c # cs"])
    then show ?thesis using "2.IH"(2)[OF Some[unfolded r] refl refl, of "acc @ [marker_text nm ds]"] Some r
      by simp
  qed
qed

lemma no_marker_exec: "(\<forall>i. \<not> starts_marker (drop i s)) \<longleftrightarrow> exec_citation s = None"
proof (induction s)
  case Nil
  then show ?case by (simp add: starts_marker_iff citation_match_def)
next
  case (Cons c cs)
  have "(\<forall>i. \<not> starts_marker (drop i (c # cs)))
          \<longleftrightarrow> \<not> starts_marker (c # cs) \<and> (\<forall>i. \<not> starts_marker (drop i cs))"
  proof
    assume a: "\<forall>i. \<not> starts_marker (drop i (c # cs))"
    have "\<not> starts_marker (c # cs)" using a[rule_format, of 0] by simp
    moreover have "\<not> starts_marker (drop i cs)" for i using a[rule_format, of "Suc i"] by simp
    ultimately show "\<not> starts_marker (c # cs) \<and> (\<forall>i. \<not> starts_marker (drop i cs))" by blast
  next
    assume a: "\<not> starts_marker (c # cs) \<and> (\<forall>i. \<not> starts_marker (drop i cs))"
    show "\<forall>i. \<not> starts_marker (drop i (c # cs))"
    proof
      fix i show "\<not> starts_marker (drop i (c # cs))" using a by (cases i) simp_all
    qed
  qed
  then show ?case using Cons.IH
    by (auto simp: starts_marker_iff split: option.splits)
qed

lemma no_marker_free: "(\<forall>i. \<not> starts_marker (drop i s)) \<Longrightarrow> marker_free s []"
  by (simp add: marker_free_def)

lemma length_citations_render_segments:
  "length (filter is_citation (render_segments k segs)) = length (filter is_cite segs)"
  by (induction k segs rule: render_segments.induct) simp_all

section \<open>Claims about citation rendering\<close>

text \<open>
  Claim C1. For every input text, \<open>renderContent\<close> returns exactly the rendering of the
  text's segmentation: a list of segments is the segmentation of the text if and only if
  it is the list of segments the returned elements show. So there is one citation element
  per well-formed marker \<^verbatim>\<open>[name#digits]\<close> (the name any non-empty string without \<^verbatim>\<open>]\<close>),
  the citation elements stand in the left-to-right order of the markers, each carries its
  marker's name and digit sequence, the plain text between the markers is kept verbatim
  and in order (the texts the elements show, concatenated, are the input), and a text in
  which no marker begins is returned as one plain element holding the input.
\<close>

theorem renderContent_citations:
  "(segmentation text segs \<longleftrightarrow> segs = segments_of (renderContent text))
   \<and> renderContent text = render_segments 0 (segments_of (renderContent text))
   \<and> length (filter is_citation (renderContent text))
       = length (filter is_cite (segments_of (renderContent text)))
   \<and> concat (map element_text (renderContent text)) = text
   \<and> ((\<forall>i. \<not> starts_marker (drop i text)) \<longrightarrow> renderContent text = [Span 0 text])"
proof -
  let ?S = "segs_of_parts (split_citation text)"
  have r: "renderContent text = render_segments 0 ?S"
    by (rule renderContent_render_segments)
  have so: "segments_of (renderContent text) = ?S"
    by (simp add: r segments_of_render_segments)
  have ex: "segmentation text ?S"
    by (rule segmentation_split_citation)
  have un: "segs = ?S" if "segmentation text segs"
    using segmentation_split_loop[OF that] by (simp add: split_citation_def)
  have c1: "segmentation text segs \<longleftrightarrow> segs = segments_of (renderContent text)"
    using ex un so by auto
  have c2: "renderContent text = render_segments 0 (segments_of (renderContent text))"
    using r so by simp
  have c3: "length (filter is_citation (renderContent text))
       = length (filter is_cite (segments_of (renderContent text)))"
    using r so by (simp add: length_citations_render_segments)
  have c4: "concat (map element_text (renderContent text)) = text"
    using segmentation_concat[OF ex, of 0] r by simp
  have c5: "renderContent text = [Span 0 text]" if "\<forall>i. \<not> starts_marker (drop i text)"
    using split_loop_marker_free[OF no_marker_free[OF that], of "[]"]
    by (simp add: r split_citation_def)
  show ?thesis using c1 c2 c3 c4 c5 by blast
qed

theorem renderContent_citations_witness:
  "segmentation ''See [manual.pdf#3] for details.''
     [Plain ''See '', Cite ''manual.pdf'' ''3'', Plain '' for details.'']
   \<and> renderContent ''See [manual.pdf#3] for details.''
       = [Span 0 ''See '', CitationSpan 1 ''Source: manual.pdf, Chunk: 3'' ''manual.pdf'' (Some ''3''),
          Null, Span 3 '' for details.'']
   \<and> (\<forall>i. \<not> starts_marker (drop i ''no [marker] here#1''))
   \<and> renderContent ''no [marker] here#1'' = [Span 0 ''no [marker] here#1'']"
proof -
  have r: "renderContent ''See [manual.pdf#3] for details.''
       = [Span 0 ''See '', CitationSpan 1 ''Source: manual.pdf, Chunk: 3'' ''manual.pdf'' (Some ''3''),
          Null, Span 3 '' for details.'']"
    by (simp add: renderContent_def split_citation_def citation_match_def is_digit_def
        render_part_def template_chunk_def)
  have s: "segmentation ''See [manual.pdf#3] for details.''
     [Plain ''See '', Cite ''manual.pdf'' ''3'', Plain '' for details.'']"
    using renderContent_citations[of "''See [manual.pdf#3] for details.''"
        "[Plain ''See '', Cite ''manual.pdf'' ''3'', Plain '' for details.'']"]
    by (simp add: r)
  have n: "\<forall>i. \<not> starts_marker (drop i ''no [marker] here#1'')"
    by (simp add: no_marker_exec citation_match_def is_digit_def)
  have p: "renderContent ''no [marker] here#1'' = [Span 0 ''no [marker] here#1'']"
    using renderContent_citations[of "''no [marker] here#1''" "[]"] n by blast
  show ?thesis using r s n p by blast
qed

text \<open>
  Claim C10. \<open>extractCitations\<close> and \<open>renderContent\<close> agree on what a citation is: for
  every text, \<open>extractCitations\<close> returns the texts that the citation elements of
  \<open>renderContent\<close> show, in the same order, so its length is the number of citation
  elements; and these are the marker substrings of the text's segmentation, from left to
  right.
\<close>

theorem extractCitations_agrees:
  "extractCitations text = map element_text (filter is_citation (renderContent text))
   \<and> length (extractCitations text) = length (filter is_citation (renderContent text))
   \<and> (\<forall>segs. segmentation text segs \<longrightarrow> extractCitations text = cite_texts segs)"
proof -
  let ?S = "segs_of_parts (split_citation text)"
  have e: "extractCitations text = cite_texts ?S"
    using extract_loop_split_loop[of "[]" "text" "[]"]
    by (simp add: extractCitations_def split_citation_def)
  have r: "renderContent text = render_segments 0 ?S"
    by (rule renderContent_render_segments)
  have c1: "extractCitations text = map element_text (filter is_citation (renderContent text))"
    by (simp add: e r cite_texts_render_segments)
  have c2: "length (extractCitations text) = length (filter is_citation (renderContent text))"
    by (simp add: c1)
  have c3: "extractCitations text = cite_texts segs" if "segmentation text segs" for segs
    using segmentation_split_loop[OF that] e by (simp add: split_citation_def)
  show ?thesis using c1 c2 c3 by blast
qed

theorem extractCitations_agrees_witness:
  "extractCitations ''[a#1][b#22]x[c#]y[[d#3]'' = [''[a#1]'', ''[b#22]'', ''[[d#3]'']
   \<and> length (filter is_citation (renderContent ''[a#1][b#22]x[c#]y[[d#3]'')) = 3
   \<and> segmentation ''[a#1][b#22]x[c#]y[[d#3]''
        [Plain [], Cite ''a'' ''1'', Plain [], Cite ''b'' ''22'', Plain ''x[c#]y'',
         Cite ''[d'' ''3'', Plain []]"
proof -
  have r: "renderContent ''[a#1][b#22]x[c#]y[[d#3]'' =
      [Span 0 [], CitationSpan 1 ''Source: a, Chunk: 1'' ''a'' (Some ''1''), Null, Span 3 [],
       CitationSpan 4 ''Source: b, Chunk: 22'' ''b'' (Some ''22''), Null, Span 6 ''x[c#]y'',
       CitationSpan 7 ''Source: [d, Chunk: 3'' ''[d'' (Some ''3''), Null, Span 9 []]"
    by (simp add: renderContent_def split_citation_def citation_match_def is_digit_def
        render_part_def template_chunk_def)
  have s: "segmentation ''[a#1][b#22]x[c#]y[[d#3]''
        [Plain [], Cite ''a'' ''1'', Plain [], Cite ''b'' ''22'', Plain ''x[c#]y'',
         Cite ''[d'' ''3'', Plain []]"
    using split_loop_segmentation[of "[]" "''[a#1][b#22]x[c#]y[[d#3]''"]
    by (simp add: marker_free_Nil citation_match_def is_digit_def)
  show ?thesis
    using extractCitations_agrees[of "''[a#1][b#22]x[c#]y[[d#3]''"] s
    by (simp add: r marker_text_def)
qed

section \<open>Claims about the chat transcript\<close>

lemma trim_Nil_iff: "trim s = [] \<longleftrightarrow> (\<forall>c\<in>set s. js_whitespace c)"
proof
  assume "trim s = []"
  then have "dropWhile js_whitespace (rev (dropWhile js_whitespace s)) = []"
    by (simp add: trim_def)
  then have "\<forall>x\<in>set (rev (dropWhile js_whitespace s)). js_whitespace x"
    by (simp only: dropWhile_eq_Nil_conv)
  then have a: "\<forall>x\<in>set (dropWhile js_whitespace s). js_whitespace x"
    by (simp only: set_rev)
  have "dropWhile js_whitespace s = []"
  proof (cases "dropWhile js_whitespace s")
    case Nil
    then show ?thesis .
  next
    case (Cons y ys)
    then have "\<not> js_whitespace y" by (metis hd_dropWhile list.sel(1) list.distinct(1))
    then show ?thesis using a Cons by simp
  qed
  then show "\<forall>c\<in>set s. js_whitespace c" by (simp only: dropWhile_eq_Nil_conv)
next
  assume "\<forall>c\<in>set s. js_whitespace c"
  then have d: "dropWhile js_whitespace s = []" by (simp only: dropWhile_eq_Nil_conv)
  show "trim s = []" unfolding trim_def d by simp
qed

lemma startsWith_includes: "startsWith s sub \<Longrightarrow> includes_str s sub"
  by (cases s) (auto simp: startsWith_def)

lemma includes_str_append: "includes_str (pre @ sub @ post) sub"
proof (induction pre)
  case Nil
  have "startsWith (sub @ post) sub" by (simp add: startsWith_def)
  then show ?case by (simp add: startsWith_includes)
next
  case (Cons c pre)
  then show ?case by simp
qed

lemma handleSubmit_begin_issue:
  "trim (input s) \<noteq> [] \<Longrightarrow> \<not> isLoading s \<Longrightarrow>
     handleSubmit_begin s =
       (s\<lparr>messages := messages s @ [\<lparr>role = User, content = trim (input s)\<rparr>],
          input := [], isLoading := True\<rparr>,
        Some (messages s @ [\<lparr>role = User, content = trim (input s)\<rparr>], ragOnly s))"
  by (simp add: handleSubmit_begin_def Let_def)

lemma handleSubmit_begin_noop:
  "trim (input s) = [] \<or> isLoading s \<Longrightarrow> handleSubmit_begin s = (s, None)"
  by (auto simp: handleSubmit_begin_def)

text \<open>
  Claim C2. From any transcript state whose input is not blank and which is not loading,
  when the chat call resolves with a response, \<open>handleSubmit\<close> completes with the transcript
  two messages longer: the old messages, the user message (the trimmed input), then the
  assistant message whose content is the response's answer. If the response has sources,
  they are stored under the id of the assistant message's index, the key under which the
  message list reads the sources of the message at that index. The loading flag is reset.
\<close>

theorem handleSubmit_success:
  assumes "trim (input s) \<noteq> []" and "\<not> isLoading s"
    and "chat (messages s @ [\<lparr>role = User, content = trim (input s)\<rparr>]) (ragOnly s) = Inr response"
  shows "\<exists>s'. handleSubmit chat s = Inr s'
     \<and> messages s' = messages s @ [\<lparr>role = User, content = trim (input s)\<rparr>,
                                   \<lparr>role = Assistant, content = answer response\<rparr>]
     \<and> length (messages s') = length (messages s) + 2
     \<and> messages s' ! (length (messages s) + 1) = \<lparr>role = Assistant, content = answer response\<rparr>
     \<and> (response_sources response \<noteq> [] \<longrightarrow>
          sources s' (messageId (length (messages s) + 1)) = Some (response_sources response))
     \<and> \<not> isLoading s'"
  using assms
  by (simp add: handleSubmit_def handleSubmit_begin_issue handleSubmit_resume_def Let_def nth_append)

theorem handleSubmit_success_witness:
  "trim (input (chat_init\<lparr>input := '' What is X? ''\<rparr>)) \<noteq> []
   \<and> \<not> isLoading (chat_init\<lparr>input := '' What is X? ''\<rparr>)
   \<and> (\<exists>s'. handleSubmit
          (\<lambda>ms rag. Inr \<lparr>answer = ''See [manual.pdf#3] for details.'',
             response_sources = [\<lparr>src_doc_id = ''d1'', src_filename = ''manual.pdf'',
                chunk_index = Finite 3, snippet = ''...'', score = Finite (92 / 100),
                src_metadata = None\<rparr>],
             usage = None, follow_up = None\<rparr>)
          (chat_init\<lparr>input := '' What is X? ''\<rparr>) = Inr s'
        \<and> messages s' = [\<lparr>role = User, content = ''What is X?''\<rparr>,
                          \<lparr>role = Assistant, content = ''See [manual.pdf#3] for details.''\<rparr>]
        \<and> sources s' ''assistant-1'' = Some [\<lparr>src_doc_id = ''d1'', src_filename = ''manual.pdf'',
                chunk_index = Finite 3, snippet = ''...'', score = Finite (92 / 100),
                src_metadata = None\<rparr>])"
proof -
  let ?s = "chat_init\<lparr>input := '' What is X? ''\<rparr>"
  let ?r = "\<lparr>answer = ''See [manual.pdf#3] for details.'',
             response_sources = [\<lparr>src_doc_id = ''d1'', src_filename = ''manual.pdf'',
                chunk_index = Finite 3, snippet = ''...'', score = Finite (92 / 100),
                src_metadata = None\<rparr>],
             usage = None, follow_up = None\<rparr>"
  have t: "trim '' What is X? '' = ''What is X?''"
    by (simp add: trim_def js_whitespace_def)
  have l: "\<not> isLoading ?s" by (simp add: chat_init_def)
  have m: "messages ?s = []" by (simp add: chat_init_def)
  have k: "messageId (Suc 0) = ''assistant-1''"
    by (simp add: messageId_def string_of_nat.simps)
  show ?thesis
    using handleSubmit_success[of ?s "\<lambda>ms rag. Inr ?r" ?r] l
    by (simp add: t m k) blast
qed

lemma handleSubmit_call_issue:
  "trim (input r) \<noteq> [] \<Longrightarrow> \<not> isLoading r \<Longrightarrow>
     handleSubmit_call r cur =
       (cur\<lparr>messages := messages r @ [\<lparr>role = User, content = trim (input r)\<rparr>],
            input := [], isLoading := True\<rparr>,
        Some (messages r @ [\<lparr>role = User, content = trim (input r)\<rparr>], ragOnly r))"
  by (simp add: handleSubmit_call_def Let_def)

lemma handleSubmit_call_self: "handleSubmit_call s s = handleSubmit_begin s"
  by (simp add: handleSubmit_call_def handleSubmit_begin_def)

lemma handleSubmit_call_noop:
  "trim (input r) = [] \<or> isLoading r \<Longrightarrow> handleSubmit_call r cur = (cur, None)"
  by (auto simp: handleSubmit_call_def)





lemma isLoading_handleSubmit_resume: "\<not> isLoading (handleSubmit_resume newMessages result s)"
  by (simp add: handleSubmit_resume_def Let_def split: sum.splits)

lemma single_flight_step:
  assumes inv: "single_flight (cur, pending)"
    and fresh: "e = Submit \<longrightarrow> (isLoading cur \<longrightarrow> isLoading r)"
    and step: "chat_step e (cur, r, pending) = (cur', r', pending')"
  shows "single_flight (cur', pending')"
proof (cases e)
  case Submit
  show ?thesis
  proof (cases "trim (input r) = [] \<or> isLoading r")
    case True
    then show ?thesis using inv step Submit by (simp add: handleSubmit_call_noop)
  next
    case False
    then have "\<not> isLoading cur" using fresh Submit by blast
    then have "pending = []" using inv by (simp add: single_flight_def)
    then show ?thesis using False step Submit
      by (auto simp: handleSubmit_call_issue single_flight_def)
  qed
next
  case (Respond i result)
  show ?thesis
  proof (cases "i < length pending")
    case True
    then have "length pending = 1" "i = 0" using inv by (simp_all add: single_flight_def)
    then have "take i pending @ drop (Suc i) pending = []" by simp
    then show ?thesis using True step Respond
      by (auto simp: single_flight_def isLoading_handleSubmit_resume)
  next
    case False
    then show ?thesis using inv step Respond by simp
  qed
next
  case ClearChat
  then show ?thesis using inv step by (auto simp: single_flight_def clearChat_def)
next
  case (SetInput v)
  then show ?thesis using inv step by (auto simp: single_flight_def)
next
  case ToggleRagOnly
  then show ?thesis using inv step by (auto simp: single_flight_def)
next
  case Render
  then show ?thesis using inv step by (auto simp: single_flight_def)
qed

lemma single_flight_run:
  "single_flight (cur, pending) \<Longrightarrow> (rendered \<longrightarrow> isLoading cur \<longrightarrow> isLoading r) \<Longrightarrow>
     renders_between_submits rendered evs \<Longrightarrow>
     chat_run evs (cur, r, pending) = (cur', r', pending') \<Longrightarrow>
     single_flight (cur', pending')"
proof (induction evs arbitrary: rendered cur r pending)
  case Nil
  then show ?case by simp
next
  case (Cons e es)
  obtain c1 r1 p1 where st: "chat_step e (cur, r, pending) = (c1, r1, p1)"
    by (cases "chat_step e (cur, r, pending)")
  have run: "chat_run es (c1, r1, p1) = (cur', r', pending')"
    using Cons.prems(4) st by simp
  have sub: "e = Submit \<longrightarrow> (isLoading cur \<longrightarrow> isLoading r)"
    using Cons.prems(2,3) by auto
  have inv: "single_flight (c1, p1)"
    using single_flight_step[OF Cons.prems(1) sub st] .
  show ?case
  proof (cases e)
    case Submit
    then have "renders_between_submits False es" using Cons.prems(3) by simp
    then show ?thesis using Cons.IH[OF inv _ _ run, of False] by simp
  next
    case (Respond i result)
    then have rb: "renders_between_submits rendered es" using Cons.prems(3) by simp
    have "\<not> isLoading c1 \<or> c1 = cur" using st Respond
      by (auto simp: isLoading_handleSubmit_resume split: if_splits)
    moreover have "r1 = r" using st Respond by (auto split: if_splits)
    ultimately have "rendered \<longrightarrow> isLoading c1 \<longrightarrow> isLoading r1"
      using Cons.prems(2) by auto
    then show ?thesis using Cons.IH[OF inv _ rb run] by simp
  next
    case ClearChat
    then have rb: "renders_between_submits rendered es" using Cons.prems(3) by simp
    have "rendered \<longrightarrow> isLoading c1 \<longrightarrow> isLoading r1"
      using st ClearChat Cons.prems(2) by (auto simp: clearChat_def)
    then show ?thesis using Cons.IH[OF inv _ rb run] by simp
  next
    case (SetInput v)
    then have rb: "renders_between_submits rendered es" using Cons.prems(3) by simp
    have "rendered \<longrightarrow> isLoading c1 \<longrightarrow> isLoading r1"
      using st SetInput Cons.prems(2) by auto
    then show ?thesis using Cons.IH[OF inv _ rb run] by simp
  next
    case ToggleRagOnly
    then have rb: "renders_between_submits rendered es" using Cons.prems(3) by simp
    have "rendered \<longrightarrow> isLoading c1 \<longrightarrow> isLoading r1"
      using st ToggleRagOnly Cons.prems(2) by auto
    then show ?thesis using Cons.IH[OF inv _ rb run] by simp
  next
    case Render
    then have rb: "renders_between_submits True es" using Cons.prems(3) by simp
    have "True \<longrightarrow> isLoading c1 \<longrightarrow> isLoading r1" using st Render by auto
    then show ?thesis using Cons.IH[OF inv _ rb run] by simp
  qed
qed

text \<open>
  Claim C4, as amended. Take any sequence of submissions, settled calls, clears, input
  changes, mode toggles and re-renders from the initial state in which the component
  re-renders between any two submissions (every submission comes after a re-render with
  no other submission in between). In the state it reaches, at most one chat call is in
  flight, and one is in flight exactly when the loading flag is set. A submission by a
  render whose loading flag is set changes nothing, neither the transcript nor the
  sources, and issues no call; so does a submission after a re-render of a state whose
  loading flag is set.
\<close>

theorem chat_single_flight:
  assumes "renders_between_submits True evs"
    and "chat_run evs (chat_init, chat_init, []) = (cur, r, pending)"
  shows "length pending \<le> 1
     \<and> (isLoading cur \<longleftrightarrow> pending \<noteq> [])
     \<and> (isLoading r \<longrightarrow>
          handleSubmit_call r cur = (cur, None)
          \<and> chat_step Submit (cur, r, pending) = (cur, r, pending))
     \<and> (isLoading cur \<longrightarrow>
          chat_step Submit (chat_step Render (cur, r, pending))
            = chat_step Render (cur, r, pending))"
proof -
  have "single_flight (chat_init, [])" by (simp add: single_flight_def chat_init_def)
  then have "single_flight (cur, pending)"
    using single_flight_run[OF _ _ assms, of ] by simp
  then show ?thesis
    by (auto simp: single_flight_def handleSubmit_call_noop)
qed

theorem chat_single_flight_witness:
  "renders_between_submits True [SetInput ''hi'', Render, Submit, SetInput ''again'', Render]
   \<and> isLoading (fst (chat_run [SetInput ''hi'', Render, Submit, SetInput ''again'', Render]
        (chat_init, chat_init, [])))
   \<and> length (snd (snd (chat_run [SetInput ''hi'', Render, Submit, SetInput ''again'', Render]
        (chat_init, chat_init, [])))) = 1
   \<and> chat_run [SetInput ''hi'', Render, Submit, SetInput ''again'', Render, Submit]
        (chat_init, chat_init, [])
       = chat_run [SetInput ''hi'', Render, Submit, SetInput ''again'', Render]
           (chat_init, chat_init, [])"
proof -
  let ?evs = "[SetInput ''hi'', Render, Submit, SetInput ''again'', Render]"
  let ?s = "\<lparr>messages = [\<lparr>role = User, content = ''hi''\<rparr>], input = ''again'',
             isLoading = True, ragOnly = True, sources = Map.empty\<rparr>"
  let ?p = "[([\<lparr>role = User, content = ''hi''\<rparr>], True)]"
  have t: "trim ''hi'' = ''hi''" by (simp add: trim_def js_whitespace_def)
  have f: "renders_between_submits True ?evs" by simp
  have r: "chat_run ?evs (chat_init, chat_init, []) = (?s, ?s, ?p)"
    by (simp add: chat_init_def handleSubmit_call_def Let_def t)
  have a: "chat_run (?evs @ [Submit]) (chat_init, chat_init, []) = chat_step Submit (?s, ?s, ?p)"
    by (simp add: chat_init_def handleSubmit_call_def Let_def t)
  have "chat_step Submit (?s, ?s, ?p) = (?s, ?s, ?p)"
    using chat_single_flight[OF f r] by simp
  then show ?thesis using f r a by simp
qed

text \<open>
  Two submissions by the handler of one render, with no re-render between them: both pass
  the guard, and two chat calls are in flight.
\<close>

theorem chat_two_in_flight:
  "length (snd (snd (chat_run [SetInput ''hi'', Render, Submit, Submit]
      (chat_init, chat_init, [])))) = 2"
proof -
  have t: "trim ''hi'' = ''hi''" by (simp add: trim_def js_whitespace_def)
  show ?thesis by (simp add: chat_init_def handleSubmit_call_def Let_def t)
qed

text \<open>
  Claim C5. When the input is empty or holds only whitespace, a submission changes
  nothing, so the messages and the sources stay as they are, and it issues no chat call.
  This holds of the handler of a render with such an input whatever the current state
  is.
\<close>

theorem handleSubmit_blank_input:
  assumes "\<forall>c\<in>set (input s). js_whitespace c"
  shows "handleSubmit_begin s = (s, None)
     \<and> handleSubmit_call s cur = (cur, None)
     \<and> chat_step Submit (cur, s, pending) = (cur, s, pending)
     \<and> handleSubmit chat s = Inr s"
proof -
  have e: "trim (input s) = []" using assms by (simp add: trim_Nil_iff)
  then have "handleSubmit_begin s = (s, None)" by (simp add: handleSubmit_begin_noop)
  moreover have "handleSubmit_call s cur = (cur, None)"
    using e by (simp add: handleSubmit_call_noop)
  ultimately show ?thesis by (simp add: handleSubmit_def)
qed

theorem handleSubmit_blank_input_witness:
  "list_all js_whitespace (input (chat_init\<lparr>input := ''  \<newline> ''\<rparr>))
   \<and> handleSubmit_begin (chat_init\<lparr>input := ''  \<newline> ''\<rparr>)
       = (chat_init\<lparr>input := ''  \<newline> ''\<rparr>, None)"
proof -
  have w: "\<forall>c\<in>set (input (chat_init\<lparr>input := ''  \<newline> ''\<rparr>)). js_whitespace c"
    by (simp add: js_whitespace_def)
  have "handleSubmit_begin (chat_init\<lparr>input := ''  \<newline> ''\<rparr>)
       = (chat_init\<lparr>input := ''  \<newline> ''\<rparr>, None)"
    using handleSubmit_blank_input[OF w] by (rule conjunct1)
  then show ?thesis using w by (simp add: list_all_iff)
qed

section \<open>Claims about the document list\<close>

lemma includes_str_iff: "includes_str s sub \<longleftrightarrow> (\<exists>pre post. s = pre @ sub @ post)"
proof
  show "includes_str s sub \<Longrightarrow> \<exists>pre post. s = pre @ sub @ post"
  proof (induction s)
    case Nil
    then show ?case by simp
  next
    case (Cons c cs)
    show ?case
    proof (cases "startsWith (c # cs) sub")
      case True
      then have "c # cs = [] @ sub @ drop (length sub) (c # cs)"
        unfolding startsWith_def by (metis append_Nil append_take_drop_id)
      then show ?thesis by blast
    next
      case False
      then have "includes_str cs sub" using Cons.prems by simp
      then obtain pre post where "cs = pre @ sub @ post" using Cons.IH by blast
      then have "c # cs = (c # pre) @ sub @ post" by simp
      then show ?thesis by blast
    qed
  qed
next
  show "\<exists>pre post. s = pre @ sub @ post \<Longrightarrow> includes_str s sub"
    using includes_str_append by blast
qed

lemma set_filter_docs_query:
  "set (filter_docs x [] docs)
     = {d \<in> set docs. x = [] \<or> ci_contains (filename d) x \<or> (\<exists>t\<in>set (tags d). ci_contains t x)}"
  by (auto simp: filter_docs_def Let_def ci_contains_def includes_str_iff list_ex_iff)

lemma set_filter_docs_tag:
  "set (filter_docs [] a docs) = {d \<in> set docs. a = [] \<or> a \<in> set (tags d)}"
  by (auto simp: filter_docs_def Let_def)

lemma filter_docs_split:
  "filter_docs x a docs = filter_docs [] a (filter_docs x [] docs)"
  by (simp add: filter_docs_def Let_def)

lemma filter_docs_swap:
  "filter_docs [] a (filter_docs x [] docs) = filter_docs x [] (filter_docs [] a docs)"
  by (auto simp: filter_docs_def Let_def intro: filter_cong)

text \<open>
  Claim C7. For every document list, query and tag, the tag filter applied to the result
  of the query filter gives the same documents (the same list, so the same set) as the
  query filter applied to the result of the tag filter, and both give what one call with
  the query and the tag gives. The query filter keeps the documents whose file name or
  some tag contains the query case-insensitively (all of them for the empty query); the
  tag filter keeps the documents whose tag list holds the tag (all for the empty tag).
\<close>

theorem filter_docs_commute:
  "filter_docs [] a (filter_docs x [] docs) = filter_docs x [] (filter_docs [] a docs)
   \<and> set (filter_docs [] a (filter_docs x [] docs)) = set (filter_docs x [] (filter_docs [] a docs))
   \<and> filter_docs x a docs = filter_docs [] a (filter_docs x [] docs)
   \<and> set (filter_docs x [] docs)
       = {d \<in> set docs. x = [] \<or> ci_contains (filename d) x
                          \<or> (\<exists>t\<in>set (tags d). ci_contains t x)}
   \<and> set (filter_docs [] a docs) = {d \<in> set docs. a = [] \<or> a \<in> set (tags d)}"
  using filter_docs_swap[of a x docs] filter_docs_split[of x a docs]
    set_filter_docs_query[of x docs] set_filter_docs_tag[of a docs]
  by simp

theorem filter_docs_commute_witness:
  "filter_docs [] ''q3'' (filter_docs ''REPORT'' [] [doc_report, doc_notes]) = [doc_report]
   \<and> filter_docs ''REPORT'' [] (filter_docs [] ''q3'' [doc_report, doc_notes]) = [doc_report]
   \<and> filter_docs ''REPORT'' ''q3'' [doc_report, doc_notes] = [doc_report]"
proof -
  have q: "filter_docs ''REPORT'' [] [doc_report, doc_notes] = [doc_report]"
    by code_simp
  have t: "filter_docs [] ''q3'' [doc_report] = [doc_report]"
    by code_simp
  note th = filter_docs_commute[of "''q3''" "''REPORT''" "[doc_report, doc_notes]"]
  have c1: "filter_docs [] ''q3'' (filter_docs ''REPORT'' [] [doc_report, doc_notes]) = [doc_report]"
    by (simp only: q t)
  have e: "filter_docs [] ''q3'' (filter_docs ''REPORT'' [] [doc_report, doc_notes])
      = filter_docs ''REPORT'' [] (filter_docs [] ''q3'' [doc_report, doc_notes])"
    using th by (rule conjunct1)
  have c2: "filter_docs ''REPORT'' [] (filter_docs [] ''q3'' [doc_report, doc_notes]) = [doc_report]"
    by (rule trans[OF e[symmetric] c1])
  have "filter_docs ''REPORT'' ''q3'' [doc_report, doc_notes]
      = filter_docs [] ''q3'' (filter_docs ''REPORT'' [] [doc_report, doc_notes])"
    using th by blast
  then have c3: "filter_docs ''REPORT'' ''q3'' [doc_report, doc_notes] = [doc_report]"
    by (rule trans[OF _ c1])
  show ?thesis using c1 c2 c3 by blast
qed

text \<open>
  Claim C9. The claim: in every state the document list reaches by loads, filters and
  deletes, every filtered document is a document, and after a successful delete of an id
  no document with that id is left in either list. The code breaks it. Two documents are
  loaded and the first filter timer fires; the query \<^verbatim>\<open>notes\<close> is typed, and the effect of
  that render sets a timer that holds both documents; the delete of \<^verbatim>\<open>d2\<close> succeeds and
  removes it from both lists; then the timer fires and filters the documents of its own
  render. The document list is then the first document alone, and the filtered list is
  the deleted document.
\<close>

theorem doclist_stale_timer:
  "documents (fst (doclist_run
      [Load (Inr \<lparr>items = [doc_report, doc_notes], total = Finite 2\<rparr>), Effect, Fire,
       SetSearchQuery ''notes'', Effect,
       Delete ''d2'' (Inr \<lparr>deleted = True, delete_message = ''Document deleted''\<rparr>)]
      (doclist_init, []))) = [doc_report]
   \<and> filteredDocuments (fst (doclist_run
      [Load (Inr \<lparr>items = [doc_report, doc_notes], total = Finite 2\<rparr>), Effect, Fire,
       SetSearchQuery ''notes'', Effect,
       Delete ''d2'' (Inr \<lparr>deleted = True, delete_message = ''Document deleted''\<rparr>)]
      (doclist_init, []))) = [doc_report]
   \<and> documents (fst (doclist_run
      [Load (Inr \<lparr>items = [doc_report, doc_notes], total = Finite 2\<rparr>), Effect, Fire,
       SetSearchQuery ''notes'', Effect,
       Delete ''d2'' (Inr \<lparr>deleted = True, delete_message = ''Document deleted''\<rparr>), Fire]
      (doclist_init, []))) = [doc_report]
   \<and> filteredDocuments (fst (doclist_run
      [Load (Inr \<lparr>items = [doc_report, doc_notes], total = Finite 2\<rparr>), Effect, Fire,
       SetSearchQuery ''notes'', Effect,
       Delete ''d2'' (Inr \<lparr>deleted = True, delete_message = ''Document deleted''\<rparr>), Fire]
      (doclist_init, []))) = [doc_notes]
   \<and> doc_id doc_notes = ''d2''
   \<and> doc_notes \<notin> set [doc_report]"
  by code_simp

section \<open>Claims about the upload form\<close>

lemma split_on_not_Nil: "split_on sep cur s \<noteq> []"
  by (induction s arbitrary: cur) simp_all

lemma join_Cons: "xs \<noteq> [] \<Longrightarrow> join sep (x # xs) = x @ sep @ join sep xs"
  by (cases xs) simp_all

lemma join_split_on: "join [sep] (split_on sep cur s) = cur @ s"
proof (induction s arbitrary: cur)
  case Nil
  then show ?case by simp
next
  case (Cons c cs)
  show ?case
  proof (cases "c = sep")
    case True
    then show ?thesis using Cons.IH[of "[]"] by (simp add: join_Cons split_on_not_Nil)
  next
    case False
    then show ?thesis using Cons.IH[of "cur @ [c]"] by simp
  qed
qed

lemma split_on_no_sep:
  "sep \<notin> set cur \<Longrightarrow> \<forall>p\<in>set (split_on sep cur s). sep \<notin> set p"
proof (induction s arbitrary: cur)
  case Nil
  then show ?case by simp
next
  case (Cons c cs)
  show ?case
  proof (cases "c = sep")
    case True
    then show ?thesis using Cons.IH[of "[]"] Cons.prems by simp
  next
    case False
    then show ?thesis using Cons.IH[of "cur @ [c]"] Cons.prems by simp
  qed
qed

lemma set_trim: "x \<in> set (trim s) \<Longrightarrow> x \<in> set s"
proof -
  assume "x \<in> set (trim s)"
  then have "x \<in> set (dropWhile js_whitespace (rev (dropWhile js_whitespace s)))"
    by (simp add: trim_def)
  then have "x \<in> set (rev (dropWhile js_whitespace s))"
    by (rule set_dropWhileD)
  then have "x \<in> set (dropWhile js_whitespace s)"
    by (simp only: set_rev)
  then show ?thesis by (rule set_dropWhileD)
qed

lemma filter_map_nonempty:
  "filter (\<lambda>tag. length tag > 0) (map f ps) = [f p. p \<leftarrow> ps, f p \<noteq> []]"
  by (induction ps) simp_all

lemma hd_trim: "trim s \<noteq> [] \<Longrightarrow> \<not> js_whitespace (hd (trim s))"
proof -
  let ?a = "dropWhile js_whitespace s"
  let ?b = "dropWhile js_whitespace (rev ?a)"
  assume n: "trim s \<noteq> []"
  then have b: "?b \<noteq> []" by (simp add: trim_def)
  have a: "?a \<noteq> []"
  proof
    assume e: "?a = []"
    have "?b = []" unfolding e by simp
    then show False using b by blast
  qed
  have "rev ?a = takeWhile js_whitespace (rev ?a) @ ?b" by simp
  then have "last (rev ?a) = last ?b" using b by (metis last_appendR)
  then have "last ?b = hd ?a" using a by (simp add: last_rev)
  moreover have "\<not> js_whitespace (hd ?a)" using a by (rule hd_dropWhile)
  moreover have "hd (trim s) = last ?b" using b by (simp add: trim_def hd_rev)
  ultimately show ?thesis by simp
qed

lemma last_trim: "trim s \<noteq> [] \<Longrightarrow> \<not> js_whitespace (last (trim s))"
proof -
  let ?b = "dropWhile js_whitespace (rev (dropWhile js_whitespace s))"
  assume "trim s \<noteq> []"
  then have b: "?b \<noteq> []" by (simp add: trim_def)
  then have "\<not> js_whitespace (hd ?b)" by (rule hd_dropWhile)
  moreover have "last (trim s) = hd ?b" using b by (simp add: trim_def last_rev)
  ultimately show ?thesis by simp
qed

lemma count_list_filter_map:
  "t \<noteq> [] \<Longrightarrow>
     count_list (filter (\<lambda>tag. length tag > 0) (map f ps)) t = length (filter (\<lambda>p. f p = t) ps)"
  by (induction ps) auto

text \<open>
  Claim C6, as amended. When the upload is submitted, the tag input is split at its
  commas (the pieces, joined by commas, are the input, and no piece holds a comma), each
  piece is trimmed, and the non-empty results are kept in order: every tag is non-empty,
  begins and ends with a character that is not whitespace, and holds no comma. Each piece
  gives its own entry: a tag occurs as many times as there are pieces that trim to it, so
  equal tags are not merged. This list goes to \<open>uploadDocument\<close> with the file.
\<close>

theorem handleUpload_tags_pieces:
  "join '','' (split_on (CHR '','') [] s) = s
   \<and> (\<forall>p\<in>set (split_on (CHR '','') [] s). CHR '','' \<notin> set p)
   \<and> handleUpload_tags s = [trim p. p \<leftarrow> split_on (CHR '','') [] s, trim p \<noteq> []]
   \<and> (\<forall>t\<in>set (handleUpload_tags s).
         t \<noteq> [] \<and> \<not> js_whitespace (hd t) \<and> \<not> js_whitespace (last t) \<and> CHR '','' \<notin> set t)
   \<and> (\<forall>t. t \<noteq> [] \<longrightarrow>
         count_list (handleUpload_tags s) t
           = length (filter (\<lambda>p. trim p = t) (split_on (CHR '','') [] s)))
   \<and> (upload_file st = Some f \<longrightarrow>
         snd (handleUpload_begin st) = Some (f, handleUpload_tags (upload_tags st)))"
proof -
  let ?ps = "split_on (CHR '','') [] s"
  have c1: "join '','' ?ps = s" using join_split_on[of "CHR '',''" "[]" s] by simp
  have c2: "\<forall>p\<in>set ?ps. CHR '','' \<notin> set p"
    using split_on_no_sep[of "CHR '',''" "[]"] by simp
  have c3: "handleUpload_tags s = [trim p. p \<leftarrow> ?ps, trim p \<noteq> []]"
    unfolding handleUpload_tags_def by (rule filter_map_nonempty)
  have c4: "t \<noteq> [] \<and> \<not> js_whitespace (hd t) \<and> \<not> js_whitespace (last t) \<and> CHR '','' \<notin> set t"
    if "t \<in> set (handleUpload_tags s)" for t
  proof -
    from that obtain p where p: "p \<in> set ?ps" "t = trim p" "trim p \<noteq> []"
      by (auto simp: handleUpload_tags_def)
    have "CHR '','' \<notin> set p" using c2 p(1) by blast
    then have "CHR '','' \<notin> set t" using set_trim[of "CHR '',''" p] p(2) by blast
    then show ?thesis using p hd_trim[of p] last_trim[of p] by simp
  qed
  have c5: "count_list (handleUpload_tags s) t = length (filter (\<lambda>p. trim p = t) ?ps)"
    if "t \<noteq> []" for t
    unfolding handleUpload_tags_def using that by (rule count_list_filter_map)
  have c6: "snd (handleUpload_begin st) = Some (f, handleUpload_tags (upload_tags st))"
    if "upload_file st = Some f"
    using that by (simp add: handleUpload_begin_def)
  show ?thesis using c1 c2 c3 c4 c5 c6 by blast
qed

theorem handleUpload_tags_pieces_witness:
  "handleUpload_tags '' a, b ,,a '' = [''a'', ''b'', ''a'']
   \<and> count_list (handleUpload_tags '' a, b ,,a '') ''a'' = 2
   \<and> split_on (CHR '','') [] '' a, b ,,a '' = ['' a'', '' b '', [], ''a '']
   \<and> snd (handleUpload_begin \<lparr>upload_file = Some (7::nat), uploading = False, progress = 0,
          upload_error = None, success = None, upload_tags = '' a, b ,,a ''\<rparr>)
       = Some (7, [''a'', ''b'', ''a''])"
proof -
  let ?st = "\<lparr>upload_file = Some (7::nat), uploading = False, progress = 0,
          upload_error = None, success = None, upload_tags = '' a, b ,,a ''\<rparr>"
  have p: "split_on (CHR '','') [] '' a, b ,,a '' = ['' a'', '' b '', [], ''a '']"
    by simp
  have t: "trim '' a'' = ''a''" "trim '' b '' = ''b''" "trim [] = []" "trim ''a '' = ''a''"
    by (simp_all add: trim_def js_whitespace_def)
  note th = handleUpload_tags_pieces[of "'' a, b ,,a ''" ?st 7]
  note e3 = th[THEN conjunct2, THEN conjunct2, THEN conjunct1]
  note e5 = th[THEN conjunct2, THEN conjunct2, THEN conjunct2, THEN conjunct2, THEN conjunct1,
      rule_format, of "''a''"]
  note e6 = th[THEN conjunct2, THEN conjunct2, THEN conjunct2, THEN conjunct2, THEN conjunct2,
      rule_format]
  have c1: "handleUpload_tags '' a, b ,,a '' = [''a'', ''b'', ''a'']"
    by (simp add: e3 p t)
  have c2: "count_list (handleUpload_tags '' a, b ,,a '') ''a'' = 2"
    using e5 by (simp add: p t)
  have "snd (handleUpload_begin ?st) = Some (7, handleUpload_tags (upload_tags ?st))"
    by (rule e6) simp
  then have c3: "snd (handleUpload_begin ?st) = Some (7, [''a'', ''b'', ''a''])"
    by (simp add: c1)
  show ?thesis by (intro conjI c1 c2 p c3)
qed

text \<open>
  The tag input \<^verbatim>\<open>a, a\<close> gives the tag \<^verbatim>\<open>a\<close> twice: the list is not deduplicated.
\<close>

theorem handleUpload_tags_duplicates:
  "handleUpload_tags ''a, a'' = [''a'', ''a''] \<and> \<not> distinct (handleUpload_tags ''a, a'')"
  by (simp add: handleUpload_tags_def trim_def js_whitespace_def)

section \<open>Claims about the token stream\<close>

lemma split_on_acc: "sep \<notin> set cur \<Longrightarrow> split_on sep acc (cur @ s) = split_on sep (acc @ cur) s"
  by (induction cur arbitrary: acc) auto

lemma split_on_no_sep_text: "sep \<notin> set s \<Longrightarrow> split_on sep cur s = [cur @ s]"
  by (induction s arbitrary: cur) auto

lemma split_on_append:
  "split_on sep cur (a @ b)
     = butlast (split_on sep cur a) @ split_on sep (last (split_on sep cur a)) b"
proof (induction a arbitrary: cur)
  case Nil
  then show ?case by simp
next
  case (Cons c cs)
  show ?case
  proof (cases "c = sep")
    case True
    then show ?thesis using Cons.IH[of "[]"] by (simp add: split_on_not_Nil)
  next
    case False
    then show ?thesis using Cons.IH[of "cur @ [c]"] by simp
  qed
qed

lemma last_split_on_no_sep: "sep \<notin> set cur \<Longrightarrow> sep \<notin> set (last (split_on sep cur s))"
  using split_on_no_sep[of sep cur s] split_on_not_Nil[of sep cur s] last_in_set by blast

lemma done_line_iff:
  "startsWith line ''data: '' \<and> drop 6 line = ''[DONE]'' \<longleftrightarrow> line = ''data: [DONE]''"
proof
  assume a: "startsWith line ''data: '' \<and> drop 6 line = ''[DONE]''"
  then have "take (length ''data: '') line = ''data: ''" by (simp only: startsWith_def)
  moreover have "length ''data: '' = 6" by simp
  ultimately have "take 6 line = ''data: ''" by (simp only:)
  then have "line = ''data: '' @ ''[DONE]''" using a by (metis append_take_drop_id)
  then show "line = ''data: [DONE]''" by simp
next
  assume "line = ''data: [DONE]''"
  then show "startsWith line ''data: '' \<and> drop 6 line = ''[DONE]''"
    by (simp add: startsWith_def)
qed

lemma process_lines_Cons:
  "process_lines parse (line # lines) =
     (if line = ''data: [DONE]'' then ([], True)
      else (line_events parse line @ fst (process_lines parse lines),
            snd (process_lines parse lines)))"
proof (cases "line = ''data: [DONE]''")
  case True
  then show ?thesis by (simp add: startsWith_def)
next
  case False
  then have "\<not> (startsWith line ''data: '' \<and> drop 6 line = ''[DONE]'')"
    by (simp only: done_line_iff not_False_eq_True)
  then show ?thesis using False
    by (auto simp: line_events_def Let_def split: prod.splits)
qed

lemma process_lines_takeWhile:
  "process_lines parse ls =
     (concat (map (line_events parse) (takeWhile (\<lambda>l. l \<noteq> ''data: [DONE]'') ls)),
      ''data: [DONE]'' \<in> set ls)"
proof (induction ls)
  case Nil
  then show ?case by simp
next
  case (Cons l ls)
  show ?case unfolding process_lines_Cons using Cons.IH by auto
qed

lemma read_loop_chunks:
  "CHR ''\<newline>'' \<notin> set buffer \<Longrightarrow>
     read_loop parse buffer (map Inr cks)
       = (fst (process_lines parse
                 (butlast (split_on (CHR ''\<newline>'') [] (buffer @ concat cks)))),
          Completed)"
proof (induction cks arbitrary: buffer)
  case Nil
  then show ?case by (simp add: split_on_no_sep_text)
next
  case (Cons chunk rest)
  let ?nl = "CHR ''\<newline>''"
  let ?L = "split_on ?nl [] (buffer @ chunk)"
  let ?M = "split_on ?nl [] (last ?L @ concat rest)"
  let ?D = "\<lambda>l. l \<noteq> ''data: [DONE]''"
  have nb: "?nl \<notin> set (last ?L)" by (rule last_split_on_no_sep) simp
  have "split_on ?nl [] ((buffer @ chunk) @ concat rest)
      = butlast ?L @ split_on ?nl (last ?L) (concat rest)"
    by (rule split_on_append)
  also have "split_on ?nl (last ?L) (concat rest) = ?M"
    using split_on_acc[OF nb, of "[]" "concat rest"] by simp
  finally have "butlast (split_on ?nl [] (buffer @ concat (chunk # rest)))
      = butlast ?L @ butlast ?M"
    by (simp add: butlast_append split_on_not_Nil)
  then have all: "process_lines parse (butlast (split_on ?nl [] (buffer @ concat (chunk # rest))))
      = process_lines parse (butlast ?L @ butlast ?M)"
    by simp
  have IH: "read_loop parse (last ?L) (map Inr rest)
      = (fst (process_lines parse (butlast ?M)), Completed)"
    using Cons.IH[OF nb] .
  show ?case
  proof (cases "''data: [DONE]'' \<in> set (butlast ?L)")
    case True
    have tw: "takeWhile ?D (butlast ?L @ butlast ?M) = takeWhile ?D (butlast ?L)"
      using True by (rule takeWhile_append1) simp
    have "read_loop parse buffer (map Inr (chunk # rest))
        = (concat (map (line_events parse) (takeWhile ?D (butlast ?L))), Completed)"
      using True by (simp add: Let_def process_lines_takeWhile)
    moreover have "fst (process_lines parse (butlast ?L @ butlast ?M))
        = concat (map (line_events parse) (takeWhile ?D (butlast ?L)))"
      unfolding process_lines_takeWhile tw by simp
    ultimately show ?thesis unfolding all by (simp only:)
  next
    case False
    have tw1: "takeWhile ?D (butlast ?L) = butlast ?L"
      using False by (auto simp: takeWhile_eq_all_conv)
    have tw2: "takeWhile ?D (butlast ?L @ butlast ?M)
        = butlast ?L @ takeWhile ?D (butlast ?M)"
      using False by (intro takeWhile_append2) auto
    have pl: "process_lines parse (butlast ?L)
        = (concat (map (line_events parse) (butlast ?L)), False)"
      unfolding process_lines_takeWhile tw1 using False by simp
    have "read_loop parse buffer (map Inr (chunk # rest))
        = (concat (map (line_events parse) (butlast ?L))
             @ fst (process_lines parse (butlast ?M)), Completed)"
      by (simp add: Let_def pl IH)
    moreover have "fst (process_lines parse (butlast ?L @ butlast ?M))
        = concat (map (line_events parse) (butlast ?L))
            @ fst (process_lines parse (butlast ?M))"
      unfolding process_lines_takeWhile tw2 by simp
    ultimately show ?thesis unfolding all by (simp only:)
  qed
qed

text \<open>
  Claim C8, as amended. For a response whose reads all succeed, \<open>streamChat\<close> ends normally,
  whatever the payloads and however the text is cut into chunks, and its events are those
  of the complete lines before the first line \<^verbatim>\<open>data: [DONE]\<close>, in input order: that line
  ends the stream. A line that does not start with \<^verbatim>\<open>data: \<close> gives no event. A payload
  that fails to parse gives one warning and nothing else. A payload that parses to an
  object with a token property yields exactly that token when the token is truthy, and
  yields nothing when it is falsy (the empty string, zero, \<^verbatim>\<open>false\<close>, \<^verbatim>\<open>null\<close>).
\<close>

theorem streamChat_events:
  "streamChat parse (Inr \<lparr>ok = True, response_status = st, body = Some (map Inr cks)\<rparr>)
     = (concat (map (line_events parse)
          (takeWhile (\<lambda>l. l \<noteq> ''data: [DONE]'') (complete_lines cks))), Completed)
   \<and> (\<not> startsWith line ''data: '' \<longrightarrow> line_events parse line = [])
   \<and> (parse data = None \<longrightarrow> line_events parse (''data: '' @ data) = [Warn data])
   \<and> (parse data = Some (JObj kvs) \<longrightarrow> map_of kvs ''token'' = Some v \<longrightarrow>
        line_events parse (''data: '' @ data) = (if truthy v then [Yield v] else []))"
proof -
  have "streamChat parse (Inr \<lparr>ok = True, response_status = st, body = Some (map Inr cks)\<rparr>)
     = read_loop parse [] (map Inr cks)"
    by (simp add: streamChat_def)
  also have "\<dots> = (fst (process_lines parse (complete_lines cks)), Completed)"
    using read_loop_chunks[of "[]" parse cks] by (simp add: complete_lines_def)
  finally have c1: "streamChat parse
        (Inr \<lparr>ok = True, response_status = st, body = Some (map Inr cks)\<rparr>)
     = (concat (map (line_events parse)
          (takeWhile (\<lambda>l. l \<noteq> ''data: [DONE]'') (complete_lines cks))), Completed)"
    by (simp add: process_lines_takeWhile)
  have c2: "\<not> startsWith line ''data: '' \<longrightarrow> line_events parse line = []"
    by (simp add: line_events_def)
  have c3: "parse data = None \<longrightarrow> line_events parse (''data: '' @ data) = [Warn data]"
    by (simp add: line_events_def startsWith_def process_data_def)
  have c4: "parse data = Some (JObj kvs) \<longrightarrow> map_of kvs ''token'' = Some v \<longrightarrow>
        line_events parse (''data: '' @ data) = (if truthy v then [Yield v] else [])"
    by (simp add: line_events_def startsWith_def process_data_def)
  show ?thesis using c1 c2 c3 c4 by blast
qed

theorem streamChat_events_witness:
  \<open>streamChat JSON_parse_sample
      (Inr \<lparr>ok = True, response_status = 200,
         body = Some [Inr ''data: {"tok'',
                      Inr ''en":"Hel"}\<newline>data: {oops\<newline>\<newline>data: {"token":"lo"}\<newline>da'',
                      Inr ''ta: [DONE]\<newline>data: {"token":"Hel"}\<newline>'']\<rparr>)
     = ([Yield (JStr ''Hel''), Warn ''{oops'', Yield (JStr ''lo'')], Completed)
   \<and> JSON_parse_sample ''{oops'' = None
   \<and> line_events JSON_parse_sample ''data: {oops'' = [Warn ''{oops'']
   \<and> JSON_parse_sample ''{"token":"lo"}'' = Some (JObj [(''token'', JStr ''lo'')])
   \<and> map_of [(''token'', JStr ''lo'')] ''token'' = Some (JStr ''lo'')
   \<and> line_events JSON_parse_sample ''data: {"token":"lo"}'' = [Yield (JStr ''lo'')]
   \<and> \<not> startsWith [] ''data: ''
   \<and> line_events JSON_parse_sample [] = []\<close>
proof -
  let ?cks = \<open>[''data: {"tok'',
      ''en":"Hel"}\<newline>data: {oops\<newline>\<newline>data: {"token":"lo"}\<newline>da'',
      ''ta: [DONE]\<newline>data: {"token":"Hel"}\<newline>'']\<close>
  have cl: \<open>complete_lines ?cks
      = [''data: {"token":"Hel"}'', ''data: {oops'', [], ''data: {"token":"lo"}'',
         ''data: [DONE]'', ''data: {"token":"Hel"}'']\<close>
    by (simp add: complete_lines_def)
  have p1: \<open>JSON_parse_sample ''{oops'' = None\<close>
    by (simp add: JSON_parse_sample_def)
  have p2: \<open>JSON_parse_sample ''{"token":"lo"}'' = Some (JObj [(''token'', JStr ''lo'')])\<close>
    by (simp add: JSON_parse_sample_def)
  have p3: \<open>JSON_parse_sample ''{"token":"Hel"}'' = Some (JObj [(''token'', JStr ''Hel'')])\<close>
    by (simp add: JSON_parse_sample_def)
  have m: "map_of [(''token'', JStr ''lo'')] ''token'' = Some (JStr ''lo'')"
    by simp
  have m3: "map_of [(''token'', JStr ''Hel'')] ''token'' = Some (JStr ''Hel'')"
    by simp
  have n: "\<not> startsWith [] ''data: ''" by (simp add: startsWith_def)
  note a = streamChat_events[of JSON_parse_sample 200 ?cks "[]" \<open>''{oops''\<close>]
  note b = streamChat_events[of JSON_parse_sample 200 ?cks "[]" \<open>''{"token":"lo"}''\<close>
      "[(''token'', JStr ''lo'')]" "JStr ''lo''"]
  note c = streamChat_events[of JSON_parse_sample 200 ?cks "[]" \<open>''{"token":"Hel"}''\<close>
      "[(''token'', JStr ''Hel'')]" "JStr ''Hel''"]
  have e0: "line_events JSON_parse_sample [] = []"
    using a n by blast
  have e1: \<open>line_events JSON_parse_sample (''data: '' @ ''{oops'') = [Warn ''{oops'']\<close>
    using a p1 by blast
  have e2: \<open>line_events JSON_parse_sample (''data: '' @ ''{"token":"lo"}'') = [Yield (JStr ''lo'')]\<close>
    using b p2 m by simp
  have e3: \<open>line_events JSON_parse_sample (''data: '' @ ''{"token":"Hel"}'') = [Yield (JStr ''Hel'')]\<close>
    using c p3 m3 by simp
  have s: \<open>streamChat JSON_parse_sample
      (Inr \<lparr>ok = True, response_status = 200, body = Some (map Inr ?cks)\<rparr>)
     = ([Yield (JStr ''Hel''), Warn ''{oops'', Yield (JStr ''lo'')], Completed)\<close>
    unfolding a[THEN conjunct1] cl using e0 e1 e2 e3 by simp
  show ?thesis using s p1 e1 p2 m e2 n e0 by simp
qed

text \<open>
  The line \<^verbatim>\<open>data: {"token":""}\<close> parses to an object with a token property, and the
  stream yields nothing for it.
\<close>

theorem streamChat_empty_token:
  \<open>JSON_parse_sample ''{"token":""}'' = Some (JObj [(''token'', JStr [])])
   \<and> streamChat JSON_parse_sample
        (Inr \<lparr>ok = True, response_status = 200,
           body = Some [Inr ''data: {"token":""}\<newline>'']\<rparr>)
       = ([], Completed)\<close>
  by (simp add: JSON_parse_sample_def streamChat_def startsWith_def process_data_def)

end
